theory Spec2Isabelle
  imports Main "HOL-Library.Word"
begin

unbundle bit_operations_syntax

section \<open>Python values shared by both simulators\<close>

text \<open>
  A Python \<open>bytes\<close> object is a list of 8-bit words. A Python \<open>str\<close> is a sequence of
  Unicode code points, so it is a list of naturals (not a HOL \<open>string\<close>, whose characters
  are single bytes): \<open>len\<close> of a \<open>str\<close> counts code points, \<open>len\<close> of its encoding counts
  bytes. \<open>py\<close> turns an ASCII literal of the source into such a \<open>str\<close>.
\<close>

type_synonym byte = "8 word"
type_synonym pystr = "nat list"

definition py :: "string \<Rightarrow> pystr" where
  "py s = map of_char s"

text \<open>
  The exceptions the two programs can meet. \<open>KeyboardInterrupt\<close> derives from
  \<open>BaseException\<close> only, so \<open>except Exception\<close> does not catch it.
\<close>

datatype exn = UnicodeEncodeError | StructError | OSError | ValueError | KeyboardInterrupt

definition is_Exception :: "exn \<Rightarrow> bool" where
  "is_Exception e = (e \<noteq> KeyboardInterrupt)"

subsection \<open>\<open>str.encode("utf-8")\<close>\<close>

text \<open>
  One code point becomes one to four bytes. A surrogate (\<open>0xD800\<close> to \<open>0xDFFF\<close>) raises
  \<open>UnicodeEncodeError\<close>. Values from \<open>0x110000\<close> on are not code points: no Python \<open>str\<close>
  holds one, and the model rejects them the same way.
\<close>

definition utf8_char :: "nat \<Rightarrow> exn + byte list" where
  "utf8_char c =
     (if c < 0x80 then Inr [of_nat c]
      else if c < 0x800 then
        Inr [of_nat (0xC0 + c div 64), of_nat (0x80 + c mod 64)]
      else if 0xD800 \<le> c \<and> c \<le> 0xDFFF then Inl UnicodeEncodeError
      else if c < 0x10000 then
        Inr [of_nat (0xE0 + c div 4096), of_nat (0x80 + (c div 64) mod 64),
             of_nat (0x80 + c mod 64)]
      else if c < 0x110000 then
        Inr [of_nat (0xF0 + c div 262144), of_nat (0x80 + (c div 4096) mod 64),
             of_nat (0x80 + (c div 64) mod 64), of_nat (0x80 + c mod 64)]
      else Inl UnicodeEncodeError)"

fun encode_utf8 :: "pystr \<Rightarrow> exn + byte list" where
  "encode_utf8 [] = Inr []"
| "encode_utf8 (c # cs) =
     (case utf8_char c of
        Inl e \<Rightarrow> Inl e
      | Inr bs \<Rightarrow> (case encode_utf8 cs of Inl e \<Rightarrow> Inl e | Inr rest \<Rightarrow> Inr (bs @ rest)))"

subsection \<open>\<open>struct.pack\<close>\<close>

text \<open>
  \<open>struct.pack("<H", v)\<close> gives the two bytes of \<open>v\<close>, low byte first, and raises
  \<open>struct.error\<close> unless \<open>0 \<le> v \<le> 65535\<close>; \<open>struct.pack("<B", v)\<close> gives one byte and
  raises unless \<open>0 \<le> v \<le> 255\<close>.
\<close>

definition pack_H :: "int \<Rightarrow> exn + byte list" where
  "pack_H v =
     (if 0 \<le> v \<and> v \<le> 65535 then Inr [word_of_int (v mod 256), word_of_int (v div 256)]
      else Inl StructError)"

definition pack_B :: "int \<Rightarrow> exn + byte list" where
  "pack_B v = (if 0 \<le> v \<and> v \<le> 255 then Inr [word_of_int v] else Inl StructError)"

text \<open>
  \<open>msg = p1; msg += p2; ...\<close>: the pieces are evaluated in program order and the first
  one that raises ends the function with its exception.
\<close>

fun concat_packed :: "(exn + byte list) list \<Rightarrow> exn + byte list" where
  "concat_packed [] = Inr []"
| "concat_packed (p # ps) =
     (case p of
        Inl e \<Rightarrow> Inl e
      | Inr bs \<Rightarrow> (case concat_packed ps of Inl e \<Rightarrow> Inl e | Inr rest \<Rightarrow> Inr (bs @ rest)))"

section \<open>The TSL UMD 5.0 simulator (\<open>tsl_simulator.py\<close>)\<close>

subsection \<open>\<open>build_tsl5_message\<close>\<close>

definition control_bits :: "bool \<Rightarrow> bool \<Rightarrow> int" where
  "control_bits program preview =
     (let control = 0;
          control = (if program then control OR 0x03 else control);
          control = (if preview then control OR push_bit 2 0x03 else control)
      in control)"

definition build_tsl5_message :: "int \<Rightarrow> bool \<Rightarrow> bool \<Rightarrow> pystr \<Rightarrow> exn + byte list" where
  "build_tsl5_message index program preview text =
     (case encode_utf8 text of
        Inl e \<Rightarrow> Inl e
      | Inr text_bytes \<Rightarrow>
          (let text_len = int (length text_bytes);
               control = control_bits program preview;
               pbc = 1 + 1 + 2 + 2 + 2 + 2 + text_len
           in concat_packed
                [pack_H pbc, pack_B 0x00, pack_B 0x00, pack_H 0x0000, pack_H index,
                 pack_H control, pack_H text_len, Inr text_bytes]))"

text \<open>Reading a little-endian unsigned 16-bit field of a frame at a byte offset.\<close>

definition u16_at :: "byte list \<Rightarrow> nat \<Rightarrow> int" where
  "u16_at msg off = uint (msg ! off) + 256 * uint (msg ! (off + 1))"

subsection \<open>The source catalog and the main loop\<close>

definition SOURCES :: "(int \<times> pystr) list" where
  "SOURCES =
     [(1, py ''1:ME1PGM:CAM 1''),
      (2, py ''2:ME1PGM:CAM 2''),
      (3, py ''3:ME1PGM:CAM 3''),
      (4, py ''4:ME1PGM:GRAPHICS'')]"

text \<open>
  One pass of the \<open>for\<close> loop over \<open>enumerate(SOURCES)\<close>: for the source at position
  \<open>i\<close> the loop computes \<open>is_program\<close> and \<open>is_preview\<close> from the cursor
  \<open>current_program\<close> and hands them, with the source's index and label, to
  \<open>build_tsl5_message\<close>.
\<close>

definition source_tally :: "int \<Rightarrow> (int \<times> bool \<times> bool \<times> pystr) list" where
  "source_tally current_program =
     map (\<lambda>(i, (index, label)).
            (index,
             int i = current_program,
             int i = (current_program + 1) mod int (length SOURCES),
             label))
         (enumerate 0 SOURCES)"

text \<open>
  \<open>sock.sendall(msg)\<close> appends the frame to the byte stream of the connection. A frame
  that cannot be built raises and ends the program. (A connection that refuses a write
  raises too and ends the program the same way; the stream below is that of a connection
  that takes every write, so it describes the passes that complete.)
\<close>

fun send_frames :: "(int \<times> bool \<times> bool \<times> pystr) list \<Rightarrow> byte list \<Rightarrow> exn + byte list" where
  "send_frames [] stream = Inr stream"
| "send_frames ((index, is_program, is_preview, label) # rest) stream =
     (case build_tsl5_message index is_program is_preview label of
        Inl e \<Rightarrow> Inl e
      | Inr msg \<Rightarrow> send_frames rest (stream @ msg))"

record driver =
  current_program :: int
  stream :: "byte list"

text \<open>One pass of \<open>while True\<close>: all frames, then the cursor moves on.\<close>

definition tick :: "driver \<Rightarrow> exn + driver" where
  "tick d =
     (case send_frames (source_tally (current_program d)) (stream d) of
        Inl e \<Rightarrow> Inl e
      | Inr s \<Rightarrow>
          Inr \<lparr>current_program = (current_program d + 1) mod int (length SOURCES),
               stream = s\<rparr>)"

fun ticks :: "nat \<Rightarrow> driver \<Rightarrow> exn + driver" where
  "ticks 0 d = Inr d"
| "ticks (Suc n) d = (case tick d of Inl e \<Rightarrow> Inl e | Inr d' \<Rightarrow> ticks n d')"

subsection \<open>A receiver of the frames\<close>

text \<open>
  Modelled from the spec: the decoder of a tally frame, which is an external collaborator
  of the simulator and has no source here. It reads the fields at the offsets of the wire
  layout table (section 4.3), takes the leading payload length as the number of bytes that
  follow it (section 6), and decodes the label as UTF-8. It returns the index, the two
  brightness values of the control field (bits 0-1 and bits 2-3) and the label.
\<close>

definition is_cont :: "byte \<Rightarrow> bool" where
  "is_cont b = (0x80 \<le> unat b \<and> unat b < 0xC0)"

fun decode_utf8 :: "byte list \<Rightarrow> pystr option" where
  "decode_utf8 [] = Some []"
| "decode_utf8 (b # bs) =
     (if unat b < 0x80 then map_option (Cons (unat b)) (decode_utf8 bs)
      else if 0xC0 \<le> unat b \<and> unat b < 0xE0 then
        (case bs of
           b1 # bs1 \<Rightarrow>
             if is_cont b1
             then map_option (Cons ((unat b - 0xC0) * 64 + (unat b1 - 0x80))) (decode_utf8 bs1)
             else None
         | _ \<Rightarrow> None)
      else if 0xE0 \<le> unat b \<and> unat b < 0xF0 then
        (case bs of
           b1 # b2 # bs2 \<Rightarrow>
             if is_cont b1 \<and> is_cont b2
             then map_option
                    (Cons ((unat b - 0xE0) * 4096 + (unat b1 - 0x80) * 64 + (unat b2 - 0x80)))
                    (decode_utf8 bs2)
             else None
         | _ \<Rightarrow> None)
      else if 0xF0 \<le> unat b \<and> unat b < 0xF8 then
        (case bs of
           b1 # b2 # b3 # bs3 \<Rightarrow>
             if is_cont b1 \<and> is_cont b2 \<and> is_cont b3
             then map_option
                    (Cons ((unat b - 0xF0) * 262144 + (unat b1 - 0x80) * 4096
                           + (unat b2 - 0x80) * 64 + (unat b3 - 0x80)))
                    (decode_utf8 bs3)
             else None
         | _ \<Rightarrow> None)
      else None)"

definition decode_tsl5_message :: "byte list \<Rightarrow> (int \<times> int \<times> int \<times> pystr) option" where
  "decode_tsl5_message msg =
     (if length msg < 12 then None
      else if int (length msg) \<noteq> 2 + u16_at msg 0 then None
      else if int (length msg) \<noteq> 12 + u16_at msg 10 then None
      else
        (case decode_utf8 (drop 12 msg) of
           None \<Rightarrow> None
         | Some label \<Rightarrow>
             Some (u16_at msg 6,
                   u16_at msg 8 AND 3,
                   drop_bit 2 (u16_at msg 8) AND 3,
                   label)))"

section \<open>The RossTalk simulator (\<open>ross_simulator.py\<close>)\<close>

text \<open>
  A socket is named by a number. The simulator object holds the listening socket, the
  list \<open>clients\<close> and the flag \<open>running\<close>. The world outside it holds, for every
  socket, the bytes written to it so far, the sockets that have been closed, and the lines
  that \<open>send_command\<close> has printed.
\<close>

type_synonym sock = nat

datatype log_line = WARN_no_clients | SENT pystr | ERROR_failed_to_send exn

record RossTalkSimulator =
  port :: int
  server_socket :: "sock option"
  clients :: "sock list"
  running :: bool

record world =
  delivered :: "sock \<Rightarrow> byte list"
  closed :: "sock set"
  printed :: "log_line list"

subsection \<open>\<open>send_command\<close>\<close>

text \<open>
  What happens outside the main thread while one call of \<open>send_command\<close> runs:
  \<^item> \<open>send_raises net client\<close> is what the socket does with the write: \<open>None\<close> when it
    takes the bytes, \<open>Some e\<close> when \<open>client.send\<close> raises \<open>e\<close>. (The sockets are
    blocking ones, as \<open>accept\<close> returns them: a call that does not raise has taken the
    whole message.)
  \<^item> \<open>reader_ends net client\<close> holds when the reader thread of that client
    (\<open>_receive_data\<close>) leaves its loop during the call, after the loop of \<open>send_command\<close>
    has taken its copy of the list and before it has dealt with that client. The thread
    shares \<open>self.clients\<close> with the main thread, without a lock.
\<close>

record network =
  send_raises :: "sock \<Rightarrow> exn option"
  reader_ends :: "sock \<Rightarrow> bool"

text \<open>
  The last statement of \<open>_receive_data\<close>:
  \<open>self.clients.remove(client_socket) if client_socket in self.clients else None\<close>.
\<close>

definition receive_data_exit :: "sock \<Rightarrow> RossTalkSimulator \<Rightarrow> RossTalkSimulator" where
  "receive_data_exit client_socket self =
     (if client_socket \<in> set (clients self)
      then self\<lparr>clients := remove1 client_socket (clients self)\<rparr>
      else self)"

definition reader_thread :: "network \<Rightarrow> sock \<Rightarrow> RossTalkSimulator \<Rightarrow> RossTalkSimulator" where
  "reader_thread net client self =
     (if reader_ends net client then receive_data_exit client self else self)"

text \<open>
  \<open>client.send(message.encode('utf-8'))\<close>: the message is encoded, which may raise, and
  the bytes are handed to the socket, which may raise as well.
\<close>

definition client_send :: "network \<Rightarrow> sock \<Rightarrow> pystr \<Rightarrow> exn + byte list" where
  "client_send net client message =
     (case encode_utf8 message of
        Inl e \<Rightarrow> Inl e
      | Inr data \<Rightarrow> (case send_raises net client of Some e \<Rightarrow> Inl e | None \<Rightarrow> Inr data))"

text \<open>\<open>list.remove(x)\<close> drops the first occurrence and raises \<open>ValueError\<close> if there is none.\<close>

definition list_remove :: "'a \<Rightarrow> 'a list \<Rightarrow> exn + 'a list" where
  "list_remove x xs = (if x \<in> set xs then Inr (remove1 x xs) else Inl ValueError)"

text \<open>
  The loop \<open>for client in self.clients[:]\<close> runs over a copy of the list taken before the
  first write, while the handler removes from the list itself, which the reader thread of
  the client may have changed by then. \<open>except Exception\<close> catches what \<open>is_Exception\<close>
  holds of; any other exception, and one raised inside the handler, leaves
  \<open>send_command\<close>. The result is the exception that reached the caller, if any, with the
  simulator and the world as the call left them.
\<close>

fun send_to_each ::
  "network \<Rightarrow> pystr \<Rightarrow> pystr \<Rightarrow> sock list \<Rightarrow>
   RossTalkSimulator \<times> world \<Rightarrow> exn option \<times> RossTalkSimulator \<times> world" where
  "send_to_each net command message [] (self, w) = (None, self, w)"
| "send_to_each net command message (client # rest) (self, w) =
     (case client_send net client message of
        Inr data \<Rightarrow>
          send_to_each net command message rest
            (reader_thread net client self,
             w\<lparr>delivered := (delivered w)(client := delivered w client @ data),
               printed := printed w @ [SENT command]\<rparr>)
      | Inl e \<Rightarrow>
          if is_Exception e then
            (case list_remove client (clients (reader_thread net client self)) of
               Inl e' \<Rightarrow>
                 (Some e', reader_thread net client self,
                  w\<lparr>printed := printed w @ [ERROR_failed_to_send e]\<rparr>)
             | Inr cs \<Rightarrow>
                 send_to_each net command message rest
                   ((reader_thread net client self)\<lparr>clients := cs\<rparr>,
                    w\<lparr>printed := printed w @ [ERROR_failed_to_send e]\<rparr>))
          else (Some e, reader_thread net client self, w))"

text \<open>\<open>"\r\n"\<close> as code points.\<close>

definition CRLF :: pystr where
  "CRLF = [0x0D, 0x0A]"

definition send_command ::
  "network \<Rightarrow> pystr \<Rightarrow> RossTalkSimulator \<times> world \<Rightarrow>
   exn option \<times> RossTalkSimulator \<times> world" where
  "send_command net command = (\<lambda>(self, w).
     if clients self = [] then (None, self, w\<lparr>printed := printed w @ [WARN_no_clients]\<rparr>)
     else send_to_each net command (command @ CRLF) (clients self) (self, w))"

subsection \<open>Quitting\<close>




subsection \<open>\<open>_run_keyer_toggle_test\<close>\<close>

definition KEYCUT_ON :: pystr where
  "KEYCUT_ON = py ''KEYCUT ME:1:1''"

definition KEYCUT_OFF :: pystr where
  "KEYCUT_OFF = py ''KEYCUT ME:1:1:OFF''"

text \<open>
  The loop \<open>while True\<close> ends only by an exception. \<open>KeyboardInterrupt\<close> is raised in
  the main thread wherever the interrupt finds it: before the pass has called
  \<open>send_command\<close>, after \<open>send_command\<close> has returned and before the assignment to
  \<open>keyer_on\<close>, or in \<open>time.sleep(3)\<close> after the assignment. (Inside \<open>send_command\<close>
  it is one of the exceptions a write can raise.)
\<close>

datatype cancel_point = BeforeSend | AfterSend | InSleep

text \<open>
  One pass of the loop body. \<open>cancel\<close> is \<open>None\<close> for a pass that runs to its end and
  names the point of the interrupt otherwise. The result is the exception that leaves the
  body, if any, and the value of \<open>keyer_on\<close> at that moment.
\<close>

definition toggle_pass ::
  "cancel_point option \<Rightarrow> network \<Rightarrow> bool \<Rightarrow> RossTalkSimulator \<times> world \<Rightarrow>
   exn option \<times> bool \<times> RossTalkSimulator \<times> world" where
  "toggle_pass cancel net keyer_on st =
     (if cancel = Some BeforeSend then (Some KeyboardInterrupt, keyer_on, st)
      else if keyer_on then
        (case send_command net KEYCUT_OFF st of
           (Some e, st') \<Rightarrow> (Some e, keyer_on, st')
         | (None, st') \<Rightarrow>
             if cancel = Some AfterSend then (Some KeyboardInterrupt, keyer_on, st')
             else if cancel = Some InSleep then (Some KeyboardInterrupt, False, st')
             else (None, False, st'))
      else
        (case send_command net KEYCUT_ON st of
           (Some e, st') \<Rightarrow> (Some e, keyer_on, st')
         | (None, st') \<Rightarrow>
             if cancel = Some AfterSend then (Some KeyboardInterrupt, keyer_on, st')
             else if cancel = Some InSleep then (Some KeyboardInterrupt, True, st')
             else (None, True, st')))"

text \<open>
  \<open>n\<close> full passes, then the pass in which the interrupt arrives at \<open>at\<close>. \<open>nets j\<close>
  is what the sockets and the reader threads do at the \<open>j\<close>-th call of \<open>send_command\<close>; the number of calls
  made so far is returned with the result.
\<close>

fun toggle_loop ::
  "nat \<Rightarrow> cancel_point \<Rightarrow> (nat \<Rightarrow> network) \<Rightarrow> nat \<Rightarrow> bool \<Rightarrow>
   RossTalkSimulator \<times> world \<Rightarrow> exn option \<times> nat \<times> bool \<times> RossTalkSimulator \<times> world" where
  "toggle_loop 0 at nets j keyer_on st =
     (case toggle_pass (Some at) (nets j) keyer_on st of
        (r, keyer_on', st') \<Rightarrow> (r, Suc j, keyer_on', st'))"
| "toggle_loop (Suc n) at nets j keyer_on st =
     (case toggle_pass None (nets j) keyer_on st of
        (Some e, keyer_on', st') \<Rightarrow> (Some e, Suc j, keyer_on', st')
      | (None, keyer_on', st') \<Rightarrow> toggle_loop n at nets (Suc j) keyer_on' st')"

text \<open>
  The whole test: \<open>keyer_on = False\<close>, the loop, and the handler
  \<open>except KeyboardInterrupt\<close>, which sends the off command if \<open>keyer_on\<close> holds.
\<close>

definition run_keyer_toggle_test ::
  "nat \<Rightarrow> cancel_point \<Rightarrow> (nat \<Rightarrow> network) \<Rightarrow> RossTalkSimulator \<times> world \<Rightarrow>
   exn option \<times> RossTalkSimulator \<times> world" where
  "run_keyer_toggle_test n at nets st =
     (case toggle_loop n at nets 0 False st of
        (r, j, keyer_on, st') \<Rightarrow>
          if r = Some KeyboardInterrupt then
            (if keyer_on then send_command (nets j) KEYCUT_OFF st' else (None, st'))
          else (r, st'))"

text \<open>
  What the test has printed since it began, \<open>ls\<close>, agrees with \<open>keyer_on\<close>: when the flag
  holds the last line reports the on command, otherwise the last line, if any, reports the
  off command.
\<close>

definition log_agrees :: "bool \<Rightarrow> log_line list \<Rightarrow> bool" where
  "log_agrees keyer_on ls =
     (if keyer_on then ls \<noteq> [] \<and> last ls = SENT KEYCUT_ON
      else ls = [] \<or> last ls = SENT KEYCUT_OFF)"

section \<open>Concrete states and peers for the examples\<close>

text \<open>
  A simulator listening on socket 0 with one connected client (socket 1) or three
  (sockets 1, 2, 3), a world in which nothing has been written, closed or printed, and
  four behaviours of the network: every write is taken and no reader thread ends; the
  writes to socket 2 fail with \<open>OSError\<close>; the same with the reader thread of socket 2
  ending as well (the peer has reset the connection, which wakes both threads); and every
  write taken at every call.
\<close>

definition one_client :: RossTalkSimulator where
  "one_client = \<lparr>port = 7788, server_socket = Some 0, clients = [1], running = True\<rparr>"

definition three_clients :: RossTalkSimulator where
  "three_clients = \<lparr>port = 7788, server_socket = Some 0, clients = [1, 2, 3], running = True\<rparr>"

definition no_clients :: RossTalkSimulator where
  "no_clients = \<lparr>port = 7788, server_socket = Some 0, clients = [], running = True\<rparr>"

definition quiet_world :: world where
  "quiet_world = \<lparr>delivered = (\<lambda>c. []), closed = {}, printed = []\<rparr>"

definition all_accept :: network where
  "all_accept = \<lparr>send_raises = (\<lambda>c. None), reader_ends = (\<lambda>c. False)\<rparr>"

definition peer2_fails :: network where
  "peer2_fails =
     \<lparr>send_raises = (\<lambda>c. if c = 2 then Some OSError else None),
      reader_ends = (\<lambda>c. False)\<rparr>"

definition peer2_resets :: network where
  "peer2_resets =
     \<lparr>send_raises = (\<lambda>c. if c = 2 then Some OSError else None),
      reader_ends = (\<lambda>c. c = 2)\<rparr>"

definition always_accept :: "nat \<Rightarrow> network" where
  "always_accept j = all_accept"

section \<open>Facts about the UTF-8 codec\<close>

lemma utf8_char_1: "c < 0x80 \<Longrightarrow> utf8_char c = Inr [of_nat c]"
  by (simp add: utf8_char_def)

lemma utf8_char_2:
  "0x80 \<le> c \<Longrightarrow> c < 0x800 \<Longrightarrow>
   utf8_char c = Inr [of_nat (0xC0 + c div 64), of_nat (0x80 + c mod 64)]"
  by (simp add: utf8_char_def del: of_nat_add)

lemma utf8_char_3:
  assumes "0x800 \<le> c" "c < 0x10000" "c < 0xD800 \<or> 0xDFFF < c"
  shows "utf8_char c = Inr [of_nat (0xE0 + c div 4096), of_nat (0x80 + (c div 64) mod 64),
             of_nat (0x80 + c mod 64)]"
proof -
  have a: "\<not> c < 0x80" "\<not> c < 0x800" "\<not> (0xD800 \<le> c \<and> c \<le> 0xDFFF)"
    using assms by linarith+
  show ?thesis unfolding utf8_char_def using a assms(2) by (simp only: if_False if_True simp_thms)
qed

lemma utf8_char_4:
  assumes "0x10000 \<le> c" "c < 0x110000"
  shows "utf8_char c = Inr [of_nat (0xF0 + c div 262144), of_nat (0x80 + (c div 4096) mod 64),
             of_nat (0x80 + (c div 64) mod 64), of_nat (0x80 + c mod 64)]"
proof -
  have a: "\<not> c < 0x80" "\<not> c < 0x800" "\<not> (0xD800 \<le> c \<and> c \<le> 0xDFFF)" "\<not> c < 0x10000"
    using assms by linarith+
  show ?thesis unfolding utf8_char_def using a assms(2) by (simp only: if_False if_True simp_thms)
qed

lemma utf8_char_Inr_cases:
  assumes "utf8_char c = Inr bs"
  obtains "c < 0x80" | "0x80 \<le> c" "c < 0x800"
    | "0x800 \<le> c" "c < 0x10000" "c < 0xD800 \<or> 0xDFFF < c"
    | "0x10000 \<le> c" "c < 0x110000"
proof -
  have "c < 0x110000 \<and> \<not> (0xD800 \<le> c \<and> c \<le> 0xDFFF)"
  proof (rule ccontr)
    assume n: "\<not> (c < 0x110000 \<and> \<not> (0xD800 \<le> c \<and> c \<le> 0xDFFF))"
    have "utf8_char c = Inl UnicodeEncodeError"
    proof (cases "0xD800 \<le> c \<and> c \<le> 0xDFFF")
      case True
      moreover from True have "\<not> c < 0x80" "\<not> c < 0x800" by linarith+
      ultimately show ?thesis unfolding utf8_char_def by (simp only: if_False if_True simp_thms)
    next
      case False
      with n have "\<not> c < 0x80" "\<not> c < 0x800" "\<not> c < 0x10000" "\<not> c < 0x110000"
        by linarith+
      with False show ?thesis unfolding utf8_char_def by (simp only: if_False if_True simp_thms)
    qed
    with assms show False by simp
  qed
  then show thesis using that by linarith
qed

lemma join3: "(z::nat) = x * 64 + y \<Longrightarrow> c = z * 64 + w \<Longrightarrow> x * 4096 + y * 64 + w = c"
  by simp

lemma join4: "(z::nat) = x * 64 + y \<Longrightarrow> c = z * 4096 + v * 64 + w \<Longrightarrow>
   x * 262144 + y * 4096 + v * 64 + w = c"
  by simp

lemma split3: "(c::nat) div 4096 * 4096 + (c div 64) mod 64 * 64 + c mod 64 = c"
proof (rule join3)
  have "c div 64 div 64 = c div 4096" by (simp add: div_mult2_eq)
  then show "c div 64 = c div 4096 * 64 + c div 64 mod 64"
    using div_mult_mod_eq [of "c div 64" 64] by (simp only:)
  show "c = c div 64 * 64 + c mod 64" by (simp only: div_mult_mod_eq)
qed

lemma split4: "(c::nat) div 262144 * 262144 + (c div 4096) mod 64 * 4096 + (c div 64) mod 64 * 64
          + c mod 64 = c"
proof (rule join4)
  have "c div 4096 div 64 = c div 262144" by (simp add: div_mult2_eq)
  then show "c div 4096 = c div 262144 * 64 + c div 4096 mod 64"
    using div_mult_mod_eq [of "c div 4096" 64] by (simp only:)
  show "c = c div 4096 * 4096 + c div 64 mod 64 * 64 + c mod 64" by (simp only: split3)
qed

lemma unat_byte: "n < 256 \<Longrightarrow> unat (of_nat n :: byte) = n"
  by (simp add: unat_of_nat)

lemma utf8_char_decode:
  assumes "utf8_char c = Inr bs"
  shows "decode_utf8 (bs @ rest) = map_option (Cons c) (decode_utf8 rest)"
  using assms
proof (cases rule: utf8_char_Inr_cases)
  case 1
  then have "bs = [of_nat c]" using assms by (simp add: utf8_char_1)
  with 1 show ?thesis by (simp add: unat_byte)
next
  case 2
  then have bs: "bs = [of_nat (0xC0 + c div 64), of_nat (0x80 + c mod 64)]"
    using assms by (simp only: utf8_char_2 sum.inject)
  have l: "0xC0 + c div 64 < 0xE0" using 2 by simp
  have u0: "unat (of_nat (0xC0 + c div 64) :: byte) = 0xC0 + c div 64"
    using l by (intro unat_byte) simp
  have u1: "unat (of_nat (0x80 + c mod 64) :: byte) = 0x80 + c mod 64"
    by (intro unat_byte) simp
  have "c div 64 * 64 + c mod 64 = c" by simp
  with l show ?thesis by (simp add: bs u0 u1 is_cont_def del: of_nat_add)
next
  case 3
  then have bs: "bs = [of_nat (0xE0 + c div 4096), of_nat (0x80 + (c div 64) mod 64),
             of_nat (0x80 + c mod 64)]"
    using assms by (simp only: utf8_char_3 sum.inject)
  have l: "0xE0 + c div 4096 < 0xF0" using 3 by simp
  have u0: "unat (of_nat (0xE0 + c div 4096) :: byte) = 0xE0 + c div 4096"
    using l by (intro unat_byte) simp
  have u1: "unat (of_nat (0x80 + (c div 64) mod 64) :: byte) = 0x80 + (c div 64) mod 64"
    by (intro unat_byte) simp
  have u2: "unat (of_nat (0x80 + c mod 64) :: byte) = 0x80 + c mod 64"
    by (intro unat_byte) simp
  note split3 [of c]
  with l show ?thesis by (simp add: bs u0 u1 u2 is_cont_def del: of_nat_add)
next
  case 4
  then have bs: "bs = [of_nat (0xF0 + c div 262144), of_nat (0x80 + (c div 4096) mod 64),
             of_nat (0x80 + (c div 64) mod 64), of_nat (0x80 + c mod 64)]"
    using assms by (simp only: utf8_char_4 sum.inject)
  have l: "0xF0 + c div 262144 < 0xF8" using 4 by simp
  have u0: "unat (of_nat (0xF0 + c div 262144) :: byte) = 0xF0 + c div 262144"
    using l by (intro unat_byte) simp
  have u1: "unat (of_nat (0x80 + (c div 4096) mod 64) :: byte) = 0x80 + (c div 4096) mod 64"
    by (intro unat_byte) simp
  have u2: "unat (of_nat (0x80 + (c div 64) mod 64) :: byte) = 0x80 + (c div 64) mod 64"
    by (intro unat_byte) simp
  have u3: "unat (of_nat (0x80 + c mod 64) :: byte) = 0x80 + c mod 64"
    by (intro unat_byte) simp
  note split4 [of c]
  with l show ?thesis by (simp add: bs u0 u1 u2 u3 is_cont_def del: of_nat_add)
qed

lemma decode_encode_utf8: "encode_utf8 label = Inr bs \<Longrightarrow> decode_utf8 (bs @ rest) = map_option (\<lambda>t. label @ t) (decode_utf8 rest)"
proof (induction label arbitrary: bs)
  case Nil
  then show ?case by (simp add: option.map_ident)
next
  case (Cons c cs)
  then obtain b1 b2 where "utf8_char c = Inr b1" "encode_utf8 cs = Inr b2" "bs = b1 @ b2"
    by (auto split: sum.splits)
  then show ?case using Cons.IH[of b2] utf8_char_decode[of c b1 "b2 @ rest"]
    by (simp add: option.map_comp comp_def)
qed

section \<open>The bytes of a frame\<close>

lemma uint_byte: "0 \<le> v \<Longrightarrow> v < 256 \<Longrightarrow> uint (word_of_int v :: byte) = v"
  by (simp add: uint_word_of_int)

lemma u16_bytes:
  assumes "0 \<le> v" "v \<le> 65535"
  shows "uint (word_of_int (v mod 256) :: byte) + 256 * uint (word_of_int (v div 256) :: byte) = v"
proof -
  have "uint (word_of_int (v mod 256) :: byte) = v mod 256"
    by (rule uint_byte) simp_all
  moreover have "uint (word_of_int (v div 256) :: byte) = v div 256"
    using assms by (intro uint_byte) simp_all
  ultimately show ?thesis by simp
qed

lemma pack_H_ok:
  "0 \<le> v \<Longrightarrow> v \<le> 65535 \<Longrightarrow>
   pack_H v = Inr [word_of_int (v mod 256), word_of_int (v div 256)]"
  by (simp add: pack_H_def)

lemma control_bits_values:
  "control_bits False False = 0" "control_bits True False = 3"
  "control_bits False True = 12" "control_bits True True = 15"
  by (simp_all add: control_bits_def)

lemma control_bits_range: "0 \<le> control_bits p q \<and> control_bits p q \<le> 65535"
  by (cases p; cases q) (simp_all add: control_bits_values)

lemma build_frame:
  assumes "encode_utf8 label = Inr tb" "length tb \<le> 65525" "0 \<le> index" "index \<le> 65535"
  shows "build_tsl5_message index p q label =
           Inr ([word_of_int ((10 + int (length tb)) mod 256),
                 word_of_int ((10 + int (length tb)) div 256),
                 0, 0, 0, 0,
                 word_of_int (index mod 256), word_of_int (index div 256),
                 word_of_int (control_bits p q mod 256), word_of_int (control_bits p q div 256),
                 word_of_int (int (length tb) mod 256), word_of_int (int (length tb) div 256)]
                @ tb)"
proof -
  have a: "pack_H (10 + int (length tb)) =
             Inr [word_of_int ((10 + int (length tb)) mod 256),
                  word_of_int ((10 + int (length tb)) div 256)]"
    using assms(2) by (intro pack_H_ok) simp_all
  have b: "pack_H (int (length tb)) =
             Inr [word_of_int (int (length tb) mod 256), word_of_int (int (length tb) div 256)]"
    using assms(2) by (intro pack_H_ok) simp_all
  have c: "pack_H (control_bits p q) =
             Inr [word_of_int (control_bits p q mod 256), word_of_int (control_bits p q div 256)]"
    using control_bits_range [of p q] by (intro pack_H_ok) simp_all
  have d: "pack_H index = Inr [word_of_int (index mod 256), word_of_int (index div 256)]"
    using assms(3,4) by (rule pack_H_ok)
  have e: "pack_H 0 = Inr [0, 0]" "pack_B 0 = Inr [0]"
    by (simp_all add: pack_H_def pack_B_def)
  show ?thesis
    unfolding build_tsl5_message_def by (simp add: assms(1) a b c d e Let_def)
qed

lemma build_Inr_D:
  assumes "build_tsl5_message index p q label = Inr msg"
  shows "\<exists>tb. encode_utf8 label = Inr tb \<and> length tb \<le> 65525 \<and> 0 \<le> index \<and> index \<le> 65535"
proof -
  from assms obtain tb where tb: "encode_utf8 label = Inr tb"
    by (cases "encode_utf8 label") (simp_all add: build_tsl5_message_def)
  have "pack_H (10 + int (length tb)) \<noteq> Inl StructError"
    using assms by (auto simp: build_tsl5_message_def tb)
  then have l: "length tb \<le> 65525" by (simp add: pack_H_def split: if_splits)
  then have a: "pack_H (10 + int (length tb)) =
             Inr [word_of_int ((10 + int (length tb)) mod 256),
                  word_of_int ((10 + int (length tb)) div 256)]"
    by (intro pack_H_ok) simp_all
  have e: "pack_H 0 = Inr [0, 0]" "pack_B 0 = Inr [0]"
    by (simp_all add: pack_H_def pack_B_def)
  have "pack_H index \<noteq> Inl StructError"
    using assms by (auto simp: build_tsl5_message_def tb a e)
  then have "0 \<le> index \<and> index \<le> 65535" by (simp add: pack_H_def split: if_splits)
  with tb l show ?thesis by blast
qed

lemma frame_fields:
  fixes tb :: "byte list"
  assumes "length tb \<le> 65525" "0 \<le> index" "index \<le> 65535" "0 \<le> ctl" "ctl \<le> 65535"
  defines "msg \<equiv> [word_of_int ((10 + int (length tb)) mod 256),
                 word_of_int ((10 + int (length tb)) div 256),
                 0, 0, 0, 0,
                 word_of_int (index mod 256), word_of_int (index div 256),
                 word_of_int (ctl mod 256), word_of_int (ctl div 256),
                 word_of_int (int (length tb) mod 256), word_of_int (int (length tb) div 256)]
                @ tb"
  shows "length msg = 12 + length tb"
    and "u16_at msg 0 = 10 + int (length tb)"
    and "u16_at msg 6 = index"
    and "u16_at msg 8 = ctl"
    and "u16_at msg 10 = int (length tb)"
    and "drop 12 msg = tb"
proof -
  show "length msg = 12 + length tb" by (simp add: msg_def)
  show "u16_at msg 0 = 10 + int (length tb)"
    using u16_bytes [of "10 + int (length tb)"] assms(1) by (simp add: msg_def u16_at_def)
  show "u16_at msg 6 = index"
    using u16_bytes [of index] assms(2,3) by (simp add: msg_def u16_at_def)
  show "u16_at msg 8 = ctl"
    using u16_bytes [of ctl] assms(4,5) by (simp add: msg_def u16_at_def)
  show "u16_at msg 10 = int (length tb)"
    using u16_bytes [of "int (length tb)"] assms(1) by (simp add: msg_def u16_at_def)
  show "drop 12 msg = tb" by (simp add: msg_def)
qed

section \<open>Inputs the encoder refuses, and its documented example\<close>

lemma encode_utf8_ascii:
  "\<forall>c \<in> set s. c < 0x80 \<Longrightarrow> encode_utf8 s = Inr (map of_nat s)"
  by (induction s) (simp_all add: utf8_char_1)

lemma encode_utf8_replicate:
  "utf8_char c = Inr bs \<Longrightarrow> encode_utf8 (replicate n c) = Inr (concat (replicate n bs))"
  by (induction n) simp_all

lemma length_concat_replicate: "length (concat (replicate n bs)) = n * length bs"
  by (induction n) simp_all

lemma build_too_long:
  assumes "encode_utf8 label = Inr tb" "65525 < length tb"
  shows "build_tsl5_message index p q label = Inl StructError"
  using assms by (simp add: build_tsl5_message_def pack_H_def Let_def)

text \<open>
  Claim C10 as stated (every label) fails: a label of 65526 letters \<open>a\<close> gives a payload
  byte count of 65536, which \<open>struct.pack("<H", ...)\<close> refuses, so no frame is returned.
\<close>

theorem frame_length_every_label_counterexample:
  "build_tsl5_message 0 False False (replicate 65526 0x61) = Inl StructError"
proof -
  have "encode_utf8 (replicate 65526 0x61) = Inr (concat (replicate 65526 [0x61]))"
    by (rule encode_utf8_replicate) (simp add: utf8_char_def)
  then show ?thesis
    by (rule build_too_long) (simp add: length_concat_replicate)
qed

text \<open>
  Claim C5 as stated (every label) fails: 21842 euro signs are 65526 bytes of UTF-8, the
  payload byte count is 65536 and the encoder raises instead of returning a frame.
\<close>

theorem text_length_every_label_counterexample:
  "build_tsl5_message 1 True False (replicate 21842 0x20AC) = Inl StructError"
proof -
  have "encode_utf8 (replicate 21842 0x20AC) = Inr (concat (replicate 21842 [0xE2, 0x82, 0xAC]))"
    by (rule encode_utf8_replicate) (simp add: utf8_char_def)
  then show ?thesis
    by (rule build_too_long) (simp add: length_concat_replicate)
qed

text \<open>
  Claim C1 as stated fails on its own example: for index 1, program live, preview not
  live and the label \<open>CAM 1\<close> (5 bytes) the field at offset 0 holds 15, not 8 + 5 = 13.
\<close>

theorem payload_length_8_plus_text_counterexample:
  "build_tsl5_message 1 True False (py ''CAM 1'')
     = Inr [15, 0, 0, 0, 0, 0, 1, 0, 3, 0, 5, 0, 67, 65, 77, 32, 49]
   \<and> encode_utf8 (py ''CAM 1'') = Inr [67, 65, 77, 32, 49]
   \<and> u16_at [15, 0, 0, 0, 0, 0, 1, 0, 3, 0, 5, 0, 67, 65, 77, 32, 49] 0 = 15
   \<and> u16_at [15, 0, 0, 0, 0, 0, 1, 0, 3, 0, 5, 0, 67, 65, 77, 32, 49] 0
       \<noteq> 8 + int (length [67 :: byte, 65, 77, 32, 49])"
  by (simp add: build_tsl5_message_def py_def utf8_char_def pack_H_def pack_B_def
        control_bits_def u16_at_def)

section \<open>The fields of a frame\<close>

lemma built_frame_fields:
  assumes "encode_utf8 label = Inr tb" "length tb \<le> 65525" "0 \<le> index" "index \<le> 65535"
  shows "\<exists>msg. build_tsl5_message index p q label = Inr msg
           \<and> length msg = 12 + length tb
           \<and> u16_at msg 0 = 10 + int (length tb)
           \<and> u16_at msg 6 = index
           \<and> u16_at msg 8 = control_bits p q
           \<and> u16_at msg 10 = int (length tb)
           \<and> drop 12 msg = tb"
proof -
  have r: "0 \<le> control_bits p q" "control_bits p q \<le> 65535"
    using control_bits_range [of p q] by simp_all
  note f = frame_fields [OF assms(2,3,4) r]
  show ?thesis
    by (intro exI conjI, rule build_frame [OF assms]) (rule f)+
qed

lemma control_bits_or:
  "control_bits p q = (if p then 3 else 0) OR (if q then push_bit 2 3 else 0)"
  by (simp add: control_bits_def)

lemma control_bits_pairs:
  "control_bits p q AND 3 = (if p then 3 else 0)"
  "drop_bit 2 (control_bits p q) AND 3 = (if q then 3 else 0)"
  by (cases p; cases q; simp add: control_bits_values)+

text \<open>
  Claim C1, amended: for every index in 0..65535, every programLive and previewLive and
  every label whose UTF-8 encoding has at most 65525 bytes, the encoder returns a frame
  whose little-endian 16-bit field at offset 0 is 10 plus the byte length of the encoded
  label (all the bytes after the field); for index 1, program live, preview not live and
  the label \<open>CAM 1\<close> it is 15.
\<close>

theorem payload_length_is_10_plus_text_length:
  assumes "encode_utf8 label = Inr text_bytes" "length text_bytes \<le> 65525"
    and "0 \<le> index" "index \<le> 65535"
  shows "\<exists>msg. build_tsl5_message index program preview label = Inr msg
           \<and> u16_at msg 0 = 10 + int (length text_bytes)"
  using built_frame_fields [OF assms, of program preview] by blast

theorem payload_length_is_10_plus_text_length_witness:
  "encode_utf8 (py ''CAM 1'') = Inr [67, 65, 77, 32, 49]
   \<and> (\<exists>msg. build_tsl5_message 1 True False (py ''CAM 1'') = Inr msg \<and> u16_at msg 0 = 15)"
proof -
  have h: "encode_utf8 (py ''CAM 1'') = Inr [67, 65, 77, 32, 49]"
    by (simp add: py_def utf8_char_def)
  from payload_length_is_10_plus_text_length [OF h, of 1 True False]
  show ?thesis using h by simp
qed

text \<open>
  Claim C4: for every combination of the two booleans the 16-bit control field (offset 8)
  of the frame the encoder returns is (3 if programLive else 0) bitwise-or (3 shifted left
  by 2 if previewLive else 0): 0x0003 for program alone, 0x000C for preview alone, 0x000F
  for both, 0x0000 for neither; the low bit pair depends on programLive only and the next
  pair on previewLive only.
\<close>

theorem control_field_encodes_tally_bits:
  assumes "encode_utf8 label = Inr text_bytes" "length text_bytes \<le> 65525"
    and "0 \<le> index" "index \<le> 65535"
  shows "\<exists>msg. build_tsl5_message index program preview label = Inr msg
           \<and> u16_at msg 8 = (if program then 3 else 0) OR (if preview then push_bit 2 3 else 0)
           \<and> (program \<and> \<not> preview \<longrightarrow> u16_at msg 8 = 0x0003)
           \<and> (\<not> program \<and> preview \<longrightarrow> u16_at msg 8 = 0x000C)
           \<and> (program \<and> preview \<longrightarrow> u16_at msg 8 = 0x000F)
           \<and> (\<not> program \<and> \<not> preview \<longrightarrow> u16_at msg 8 = 0x0000)
           \<and> u16_at msg 8 AND 3 = (if program then 3 else 0)
           \<and> drop_bit 2 (u16_at msg 8) AND 3 = (if preview then 3 else 0)"
proof -
  from built_frame_fields [OF assms, of program preview]
  obtain msg where m: "build_tsl5_message index program preview label = Inr msg"
    and c: "u16_at msg 8 = control_bits program preview" by blast
  have "u16_at msg 8 = (if program then 3 else 0) OR (if preview then push_bit 2 3 else 0)"
    by (simp only: c control_bits_or)
  moreover have "program \<and> \<not> preview \<longrightarrow> u16_at msg 8 = 0x0003"
    by (simp add: c control_bits_values)
  moreover have "\<not> program \<and> preview \<longrightarrow> u16_at msg 8 = 0x000C"
    by (simp add: c control_bits_values)
  moreover have "program \<and> preview \<longrightarrow> u16_at msg 8 = 0x000F"
    by (simp add: c control_bits_values)
  moreover have "\<not> program \<and> \<not> preview \<longrightarrow> u16_at msg 8 = 0x0000"
    by (simp add: c control_bits_values)
  moreover have "u16_at msg 8 AND 3 = (if program then 3 else 0)"
    by (simp only: c control_bits_pairs)
  moreover have "drop_bit 2 (u16_at msg 8) AND 3 = (if preview then 3 else 0)"
    by (simp only: c control_bits_pairs)
  ultimately show ?thesis using m by blast
qed

theorem control_field_encodes_tally_bits_witness:
  "encode_utf8 (py ''CAM 2'') = Inr [67, 65, 77, 32, 50]
   \<and> (\<exists>msg. build_tsl5_message 2 True True (py ''CAM 2'') = Inr msg \<and> u16_at msg 8 = 15)"
proof -
  have h: "encode_utf8 (py ''CAM 2'') = Inr [67, 65, 77, 32, 50]"
    by (simp add: py_def utf8_char_def)
  from control_field_encodes_tally_bits [OF h, of 2 True True]
  show ?thesis using h by auto
qed

text \<open>
  Claim C5, amended: for every index in 0..65535 and every label whose UTF-8 encoding
  exists and has at most 65525 bytes, multi-byte characters included, the 16-bit field at
  offset 10 of the returned frame is the number of bytes of that encoding (not the number
  of characters), the bytes from offset 12 on are exactly that encoding, and decoding the
  frame gives back the index, the two brightness values (3 for a live flag, 0 otherwise)
  and the label.
\<close>

theorem text_length_counts_utf8_bytes:
  assumes "encode_utf8 label = Inr text_bytes" "length text_bytes \<le> 65525"
    and "0 \<le> index" "index \<le> 65535"
  shows "\<exists>msg. build_tsl5_message index program preview label = Inr msg
           \<and> u16_at msg 10 = int (length text_bytes)
           \<and> drop 12 msg = text_bytes
           \<and> decode_tsl5_message msg
               = Some (index, if program then 3 else 0, if preview then 3 else 0, label)"
proof -
  from built_frame_fields [OF assms, of program preview]
  obtain msg where m: "build_tsl5_message index program preview label = Inr msg"
    and f: "length msg = 12 + length text_bytes"
      "u16_at msg 0 = 10 + int (length text_bytes)"
      "u16_at msg 6 = index"
      "u16_at msg 8 = control_bits program preview"
      "u16_at msg 10 = int (length text_bytes)"
      "drop 12 msg = text_bytes" by blast
  have "decode_utf8 (text_bytes @ []) = map_option (\<lambda>t. label @ t) (decode_utf8 [])"
    by (rule decode_encode_utf8 [OF assms(1)])
  then have d: "decode_utf8 text_bytes = Some label" by simp
  have "decode_tsl5_message msg
          = Some (index, if program then 3 else 0, if preview then 3 else 0, label)"
    unfolding decode_tsl5_message_def
    by (simp only: f d control_bits_pairs) simp
  with m f show ?thesis by blast
qed

theorem text_length_counts_utf8_bytes_witness:
  "encode_utf8 [0xE9, 0x20AC, 0x1F600] = Inr [195, 169, 226, 130, 172, 240, 159, 152, 128]
   \<and> (\<exists>msg. build_tsl5_message 7 False True [0xE9, 0x20AC, 0x1F600] = Inr msg
         \<and> u16_at msg 10 = 9
         \<and> drop 12 msg = [195, 169, 226, 130, 172, 240, 159, 152, 128]
         \<and> decode_tsl5_message msg = Some (7, 0, 3, [0xE9, 0x20AC, 0x1F600]))"
proof -
  have h: "encode_utf8 [0xE9, 0x20AC, 0x1F600]
             = Inr [195, 169, 226, 130, 172, 240, 159, 152, 128]"
    by (simp add: utf8_char_def)
  from text_length_counts_utf8_bytes [OF h, of 7 False True]
  show ?thesis using h by simp
qed

text \<open>
  Claim C10, amended: for every index in 0..65535 and every label whose UTF-8 encoding
  exists and has at most 65525 bytes, the encoder returns a frame of 12 plus that many
  bytes, and the field at offset 0 is the length of the frame minus 2, the number of
  bytes that follow the field; cutting a stream after 2 plus that many bytes yields the
  frame and leaves exactly what follows it.
\<close>

theorem frame_length_and_payload_count:
  assumes "encode_utf8 label = Inr text_bytes" "length text_bytes \<le> 65525"
    and "0 \<le> index" "index \<le> 65535"
  shows "\<exists>msg. build_tsl5_message index program preview label = Inr msg
           \<and> length msg = 12 + length text_bytes
           \<and> u16_at msg 0 = int (length msg) - 2
           \<and> u16_at msg 0 = int (length (drop 2 msg))
           \<and> (\<forall>following. take (2 + nat (u16_at msg 0)) (msg @ following) = msg
                          \<and> drop (2 + nat (u16_at msg 0)) (msg @ following) = following)"
proof -
  from built_frame_fields [OF assms, of program preview]
  obtain msg where m: "build_tsl5_message index program preview label = Inr msg"
    and f: "length msg = 12 + length text_bytes"
      "u16_at msg 0 = 10 + int (length text_bytes)" by blast
  have n: "2 + nat (u16_at msg 0) = length msg" by (simp add: f)
  have "u16_at msg 0 = int (length msg) - 2" by (simp add: f)
  moreover have "u16_at msg 0 = int (length (drop 2 msg))" by (simp add: f)
  moreover have "\<forall>following. take (2 + nat (u16_at msg 0)) (msg @ following) = msg
                          \<and> drop (2 + nat (u16_at msg 0)) (msg @ following) = following"
    by (simp only: n) simp
  ultimately show ?thesis using m f(1) by blast
qed

theorem frame_length_and_payload_count_witness:
  "encode_utf8 (py ''4:ME1PGM:GRAPHICS'')
     = Inr [52, 58, 77, 69, 49, 80, 71, 77, 58, 71, 82, 65, 80, 72, 73, 67, 83]
   \<and> (\<exists>msg. build_tsl5_message 4 False False (py ''4:ME1PGM:GRAPHICS'') = Inr msg
         \<and> length msg = 29 \<and> u16_at msg 0 = 27)"
proof -
  have h: "encode_utf8 (py ''4:ME1PGM:GRAPHICS'')
     = Inr [52, 58, 77, 69, 49, 80, 71, 77, 58, 71, 82, 65, 80, 72, 73, 67, 83]"
    by (simp add: py_def utf8_char_def)
  from frame_length_and_payload_count [OF h, of 4 False False]
  show ?thesis using h by auto
qed

section \<open>The rotation of program and preview\<close>

lemma length_SOURCES: "length SOURCES = 4"
  by (simp add: SOURCES_def)

lemma source_tally_unfold:
  "source_tally c =
     [(1, 0 = c, 0 = (c + 1) mod 4, py ''1:ME1PGM:CAM 1''),
      (2, 1 = c, 1 = (c + 1) mod 4, py ''2:ME1PGM:CAM 2''),
      (3, 2 = c, 2 = (c + 1) mod 4, py ''3:ME1PGM:CAM 3''),
      (4, 3 = c, 3 = (c + 1) mod 4, py ''4:ME1PGM:GRAPHICS'')]"
  by (simp add: source_tally_def SOURCES_def)

lemma source_frames_built:
  "\<forall>(index, p, q, label) \<in> set (source_tally c).
      \<exists>msg. build_tsl5_message index p q label = Inr msg"
proof -
  have b: "\<exists>msg. build_tsl5_message index p q (py s) = Inr msg"
    if "\<forall>c \<in> set (py s). c < 0x80" "length s \<le> 65525" "0 \<le> index" "index \<le> 65535"
    for index p q s
  proof -
    have "encode_utf8 (py s) = Inr (map of_nat (py s))" using that(1) by (rule encode_utf8_ascii)
    moreover have "length (map of_nat (py s) :: byte list) \<le> 65525"
      using that(2) by (simp add: py_def)
    ultimately show ?thesis
      using built_frame_fields [of "py s" "map of_nat (py s)" index p q] that(3,4) by blast
  qed
  show ?thesis
    unfolding source_tally_unfold
    by (simp del: ex_simps, intro conjI b) (simp_all add: py_def)
qed

lemma send_frames_built:
  assumes "\<forall>(index, p, q, label) \<in> set xs. \<exists>msg. build_tsl5_message index p q label = Inr msg"
  shows "\<exists>frames.
           list_all2 (\<lambda>(index, p, q, label) msg. build_tsl5_message index p q label = Inr msg)
             xs frames
           \<and> send_frames xs s = Inr (s @ concat frames)"
  using assms
proof (induction xs arbitrary: s)
  case Nil
  then show ?case by simp
next
  case (Cons x xs)
  obtain index p q label where x: "x = (index, p, q, label)" by (cases x) auto
  from Cons.prems x obtain msg where m: "build_tsl5_message index p q label = Inr msg"
    by auto
  from Cons.prems have "\<forall>(index, p, q, label) \<in> set xs.
       \<exists>msg. build_tsl5_message index p q label = Inr msg" by simp
  from Cons.IH [OF this, of "s @ msg"] obtain frames where
    f: "list_all2 (\<lambda>(index, p, q, label) msg. build_tsl5_message index p q label = Inr msg)
          xs frames"
    and s: "send_frames xs (s @ msg) = Inr ((s @ msg) @ concat frames)" by blast
  have "list_all2 (\<lambda>(index, p, q, label) msg. build_tsl5_message index p q label = Inr msg)
          (x # xs) (msg # frames)"
    using f m x by simp
  moreover have "send_frames (x # xs) s = Inr (s @ concat (msg # frames))"
    using s m x by simp
  ultimately show ?case by blast
qed

lemma tick_built:
  "\<exists>frames.
     list_all2 (\<lambda>(index, p, q, label) msg. build_tsl5_message index p q label = Inr msg)
       (source_tally c) frames
     \<and> tick \<lparr>current_program = c, stream = s\<rparr>
         = Inr \<lparr>current_program = (c + 1) mod int (length SOURCES), stream = s @ concat frames\<rparr>"
proof -
  from send_frames_built [OF source_frames_built, of c s] obtain frames where
    f: "list_all2 (\<lambda>(index, p, q, label) msg. build_tsl5_message index p q label = Inr msg)
          (source_tally c) frames"
    and s: "send_frames (source_tally c) s = Inr (s @ concat frames)" by blast
  have "tick \<lparr>current_program = c, stream = s\<rparr>
         = Inr \<lparr>current_program = (c + 1) mod int (length SOURCES), stream = s @ concat frames\<rparr>"
    by (simp add: tick_def s)
  with f show ?thesis by blast
qed

lemma ticks_cursor:
  "\<exists>s'. ticks n \<lparr>current_program = c, stream = s\<rparr>
          = Inr \<lparr>current_program = (if n = 0 then c else (c + int n) mod 4), stream = s'\<rparr>"
proof (induction n arbitrary: c s)
  case 0
  then show ?case by simp
next
  case (Suc n)
  from tick_built [of c s] obtain frames where
    t: "tick \<lparr>current_program = c, stream = s\<rparr>
         = Inr \<lparr>current_program = (c + 1) mod 4, stream = s @ concat frames\<rparr>"
    by (auto simp: length_SOURCES)
  from Suc.IH [of "(c + 1) mod 4" "s @ concat frames"] obtain s' where
    "ticks n \<lparr>current_program = (c + 1) mod 4, stream = s @ concat frames\<rparr>
       = Inr \<lparr>current_program = (if n = 0 then (c + 1) mod 4 else ((c + 1) mod 4 + int n) mod 4),
              stream = s'\<rparr>" by blast
  moreover have "(if n = 0 then (c + 1) mod 4 else ((c + 1) mod 4 + int n) mod 4)
                 = (c + int (Suc n)) mod 4"
    by (simp add: mod_simps algebra_simps)
  ultimately show ?case using t by auto
qed

text \<open>
  Claim C3: for every value \<open>c\<close> of the rotation cursor (a position in the catalog of
  \<open>N = 4\<close> sources) the pass over the catalog gives programLive to exactly one source,
  the one at position \<open>c\<close>, and previewLive to exactly one source, the one at position
  \<open>(c + 1) mod N\<close>; the pass builds one frame per source from these flags, writes them
  in catalog order and moves the cursor to \<open>(c + 1) mod N\<close>; after \<open>N\<close> passes the
  cursor is \<open>c\<close> again.
\<close>

theorem rotation_cursor_invariant:
  assumes "0 \<le> c" "c < int (length SOURCES)"
  shows "map fst (filter (\<lambda>(i, index, is_program, is_preview, label). is_program)
                    (enumerate 0 (source_tally c))) = [nat c]
       \<and> map fst (filter (\<lambda>(i, index, is_program, is_preview, label). is_preview)
                    (enumerate 0 (source_tally c))) = [nat ((c + 1) mod int (length SOURCES))]
       \<and> (\<exists>frames.
            list_all2 (\<lambda>(index, is_program, is_preview, label) msg.
                         build_tsl5_message index is_program is_preview label = Inr msg)
              (source_tally c) frames
            \<and> tick \<lparr>current_program = c, stream = s\<rparr>
                = Inr \<lparr>current_program = (c + 1) mod int (length SOURCES),
                       stream = s @ concat frames\<rparr>)
       \<and> (\<exists>s'. ticks (length SOURCES) \<lparr>current_program = c, stream = s\<rparr>
                 = Inr \<lparr>current_program = c, stream = s'\<rparr>)"
proof -
  from assms have cs: "c = 0 \<or> c = 1 \<or> c = 2 \<or> c = 3"
    unfolding length_SOURCES by arith
  then have a: "map fst (filter (\<lambda>(i, index, is_program, is_preview, label). is_program)
                    (enumerate 0 (source_tally c))) = [nat c]"
    by (elim disjE) (simp_all add: source_tally_unfold)
  from cs have b: "map fst (filter (\<lambda>(i, index, is_program, is_preview, label). is_preview)
                    (enumerate 0 (source_tally c))) = [nat ((c + 1) mod int (length SOURCES))]"
    unfolding length_SOURCES by (elim disjE) (simp_all add: source_tally_unfold)
  have "(c + int 4) mod 4 = c" using assms by (simp add: length_SOURCES)
  with ticks_cursor [of 4 c s] have d:
    "\<exists>s'. ticks (length SOURCES) \<lparr>current_program = c, stream = s\<rparr>
                 = Inr \<lparr>current_program = c, stream = s'\<rparr>"
    by (simp add: length_SOURCES)
  show ?thesis using a b tick_built [of c s] d by blast
qed

theorem rotation_cursor_invariant_witness:
  "(0::int) \<le> 3 \<and> 3 < int (length SOURCES)
   \<and> map fst (filter (\<lambda>(i, index, is_program, is_preview, label). is_program)
                (enumerate 0 (source_tally 3))) = [3]
   \<and> map fst (filter (\<lambda>(i, index, is_program, is_preview, label). is_preview)
                (enumerate 0 (source_tally 3))) = [0]
   \<and> (\<exists>s'. ticks 4 \<lparr>current_program = 3, stream = []\<rparr>
             = Inr \<lparr>current_program = 3, stream = s'\<rparr>)"
proof -
  have h: "(0::int) \<le> 3" "3 < int (length SOURCES)" by (simp_all add: length_SOURCES)
  from rotation_cursor_invariant [OF h, of "[]"] h
  show ?thesis by (simp add: length_SOURCES)
qed

section \<open>The broadcast loop\<close>

lemma remove1_filter: "distinct xs \<Longrightarrow> remove1 x xs = filter (\<lambda>c. c \<noteq> x) xs"
  by (induction xs) (auto intro: filter_True [symmetric])

lemma reader_thread_clients:
  "reader_thread net client self =
     self\<lparr>clients := (if reader_ends net client then remove1 client (clients self)
                      else clients self)\<rparr>"
  by (simp add: reader_thread_def receive_data_exit_def remove1_idem)

lemma send_to_each_result:
  assumes "distinct (clients self)" "distinct rest" "set rest \<subseteq> set (clients self)"
    and "\<forall>c\<in>set rest. \<forall>e. client_send net c message = Inl e \<longrightarrow>
            is_Exception e \<and> \<not> reader_ends net c"
  shows "send_to_each net command message rest (self, w) =
     (None,
      self\<lparr>clients := filter (\<lambda>c. c \<in> set rest \<longrightarrow>
                                   (\<exists>data. client_send net c message = Inr data)
                                   \<and> \<not> reader_ends net c)
                          (clients self)\<rparr>,
      w\<lparr>delivered := (\<lambda>c. if c \<in> set rest
                            then (case client_send net c message of
                                    Inr data \<Rightarrow> delivered w c @ data
                                  | Inl e \<Rightarrow> delivered w c)
                            else delivered w c),
        printed := printed w @ map (\<lambda>c. case client_send net c message of
                                            Inr data \<Rightarrow> SENT command
                                          | Inl e \<Rightarrow> ERROR_failed_to_send e) rest\<rparr>)"
  using assms
proof (induction rest arbitrary: self w)
  case Nil
  then show ?case by simp
next
  case (Cons client rest)
  have notin: "client \<notin> set rest" and dr: "distinct rest" using Cons.prems(2) by simp_all
  have mem: "client \<in> set (clients self)" using Cons.prems(3) by simp
  have q: "\<forall>c\<in>set rest. \<forall>e. client_send net c message = Inl e \<longrightarrow>
              is_Exception e \<and> \<not> reader_ends net c"
    using Cons.prems(4) by simp
  show ?case
  proof (cases "client_send net client message")
    case (Inr data)
    let ?self = "reader_thread net client self"
    have p: "set rest \<subseteq> set (clients ?self)"
      using Cons.prems(1,3) notin by (auto simp: reader_thread_clients)
    have d: "distinct (clients ?self)"
      using Cons.prems(1) by (simp add: reader_thread_clients)
    note IH = Cons.IH [OF d dr p q, of
       "w\<lparr>delivered := (delivered w)(client := delivered w client @ data),
               printed := printed w @ [SENT command]\<rparr>"]
    show ?thesis
      apply (simp add: Inr IH)
      apply (intro conjI)
      subgoal
        by (simp add: reader_thread_clients remove1_filter [OF Cons.prems(1)] Inr)
      subgoal
        apply (rule world.equality)
        using notin apply (auto simp: fun_eq_iff Inr split: sum.splits)
        done
      done
  next
    case (Inl e)
    then have exc: "is_Exception e" and nr: "\<not> reader_ends net client"
      using Cons.prems(4) by simp_all
    have rt: "reader_thread net client self = self" using nr by (simp add: reader_thread_def)
    have rm: "list_remove client (clients self) = Inr (remove1 client (clients self))"
      using mem by (simp add: list_remove_def)
    have p: "set rest \<subseteq> set (clients (self\<lparr>clients := remove1 client (clients self)\<rparr>))"
      using Cons.prems(1,3) notin by auto
    have d: "distinct (clients (self\<lparr>clients := remove1 client (clients self)\<rparr>))"
      using Cons.prems(1) by simp
    note IH = Cons.IH [OF d dr p q, of "w\<lparr>printed := printed w @ [ERROR_failed_to_send e]\<rparr>"]
    show ?thesis
      apply (simp add: Inl exc rt rm IH)
      apply (intro conjI)
      subgoal by (simp add: remove1_filter [OF Cons.prems(1)] conj_commute)
      subgoal
        apply (rule world.equality)
        using notin apply (auto simp: fun_eq_iff Inl split: sum.splits)
        done
      done
  qed
qed

section \<open>Broadcasting with and without peers\<close>

lemma send_command_nonempty:
  "clients self \<noteq> [] \<Longrightarrow>
   send_command net command (self, w)
     = send_to_each net command (command @ CRLF) (clients self) (self, w)"
  by (simp add: send_command_def)

lemma send_command_empty:
  "clients self = [] \<Longrightarrow>
   send_command net command (self, w)
     = (None, self, w\<lparr>printed := printed w @ [WARN_no_clients]\<rparr>)"
  by (simp add: send_command_def)

lemma client_send_Inr_D:
  "client_send net c message = Inr data \<Longrightarrow>
   encode_utf8 message = Inr data \<and> send_raises net c = None"
  by (auto simp: client_send_def split: sum.splits option.splits)

lemma client_send_accept:
  "encode_utf8 message = Inr data \<Longrightarrow> send_raises net c = None \<Longrightarrow>
   client_send net c message = Inr data"
  by (simp add: client_send_def)

text \<open>
  Claim C9: for every command, \<open>send_command\<close> with an empty list of clients prints
  the no-clients warning and returns without an exception; nothing is written to any
  socket, no socket is closed, and the simulator (the list of clients with it) is as it
  was.
\<close>

theorem broadcast_without_peers:
  assumes "clients self = []"
  shows "send_command net command (self, w)
           = (None, self, w\<lparr>printed := printed w @ [WARN_no_clients]\<rparr>)
         \<and> delivered (w\<lparr>printed := printed w @ [WARN_no_clients]\<rparr>) = delivered w
         \<and> closed (w\<lparr>printed := printed w @ [WARN_no_clients]\<rparr>) = closed w"
  using assms by (simp add: send_command_def)

theorem broadcast_without_peers_witness:
  "clients no_clients = []
   \<and> send_command all_accept KEYCUT_ON (no_clients, quiet_world)
       = (None, no_clients, quiet_world\<lparr>printed := printed quiet_world @ [WARN_no_clients]\<rparr>)"
proof -
  have h: "clients no_clients = []" by (simp add: no_clients_def)
  from broadcast_without_peers [OF h, of all_accept KEYCUT_ON quiet_world] h
  show ?thesis by simp
qed

lemma send_command_all_delivered:
  assumes "distinct (clients self)" "encode_utf8 (command @ CRLF) = Inr data"
    and "\<forall>c. send_raises net c = None \<and> \<not> reader_ends net c"
  shows "\<exists>w'. send_command net command (self, w) = (None, self, w')
            \<and> (\<forall>c. delivered w' c
                      = (if c \<in> set (clients self) then delivered w c @ data else delivered w c))"
proof (cases "clients self = []")
  case True
  then show ?thesis by (simp add: send_command_empty)
next
  case False
  have cs: "client_send net c (command @ CRLF) = Inr data" for c
    using assms(2,3) by (simp add: client_send_def)
  have "send_command net command (self, w)
          = send_to_each net command (command @ CRLF) (clients self) (self, w)"
    using False by (rule send_command_nonempty)
  also have "\<dots> = (None,
      self\<lparr>clients := filter (\<lambda>c. c \<in> set (clients self) \<longrightarrow>
                                   (\<exists>data. client_send net c (command @ CRLF) = Inr data)
                                   \<and> \<not> reader_ends net c)
                          (clients self)\<rparr>,
      w\<lparr>delivered := (\<lambda>c. if c \<in> set (clients self)
                            then (case client_send net c (command @ CRLF) of
                                    Inr data \<Rightarrow> delivered w c @ data
                                  | Inl e \<Rightarrow> delivered w c)
                            else delivered w c),
        printed := printed w @ map (\<lambda>c. case client_send net c (command @ CRLF) of
                                            Inr data \<Rightarrow> SENT command
                                          | Inl e \<Rightarrow> ERROR_failed_to_send e) (clients self)\<rparr>)"
    by (rule send_to_each_result [OF assms(1) assms(1) subset_refl]) (simp add: cs)
  finally show ?thesis by (simp add: cs assms(3))
qed

text \<open>
  Claim C2, at an input where the code departs from it: three clients, the write to
  client 2 fails, and the reader thread of client 2 has meanwhile ended and taken the
  client out of \<open>self.clients\<close>. The handler's \<open>self.clients.remove(client)\<close> then raises
  \<open>ValueError\<close>, which leaves \<open>send_command\<close>: an exception reaches the caller and
  client 3, which comes after client 2, receives nothing.
\<close>

theorem broadcast_aborts_when_reader_removed_peer:
  "fst (send_command peer2_resets KEYCUT_ON (three_clients, quiet_world)) = Some ValueError
   \<and> clients (fst (snd (send_command peer2_resets KEYCUT_ON (three_clients, quiet_world))))
       = [1, 3]
   \<and> delivered (snd (snd (send_command peer2_resets KEYCUT_ON (three_clients, quiet_world)))) 1
       = [75, 69, 89, 67, 85, 84, 32, 77, 69, 58, 49, 58, 49, 13, 10]
   \<and> delivered (snd (snd (send_command peer2_resets KEYCUT_ON (three_clients, quiet_world)))) 3
       = []
   \<and> printed (snd (snd (send_command peer2_resets KEYCUT_ON (three_clients, quiet_world))))
       = [SENT KEYCUT_ON, ERROR_failed_to_send OSError]"
  by (simp add: send_command_def three_clients_def quiet_world_def peer2_resets_def
        client_send_def reader_thread_def receive_data_exit_def list_remove_def
        is_Exception_def KEYCUT_ON_def CRLF_def py_def utf8_char_def)

text \<open>
  The run the handler was written for: no reader thread of a client ends while the
  broadcast is under way. If the write to exactly one client \<open>k\<close> of \<open>N\<close> distinct clients
  fails, then every other client receives the whole serialized command, \<open>k\<close> and only
  \<open>k\<close> is removed from the list (nothing else of the simulator changes), \<open>k\<close> receives
  nothing, no exception reaches the caller, and the next broadcast writes to the \<open>N - 1\<close>
  remaining clients and to no other socket.
\<close>

lemma broadcast_with_quiet_readers:
  assumes "distinct (clients self)" and "k \<in> set (clients self)"
    and "client_send net k (command @ CRLF) = Inl e" and "is_Exception e"
    and "\<forall>c\<in>set (clients self). c \<noteq> k \<longrightarrow> (\<exists>data. client_send net c (command @ CRLF) = Inr data)"
    and "\<forall>c\<in>set (clients self). \<not> reader_ends net c"
  shows "\<exists>self' w'.
           send_command net command (self, w) = (None, self', w')
           \<and> self' = self\<lparr>clients := remove1 k (clients self)\<rparr>
           \<and> set (clients self') = set (clients self) - {k}
           \<and> length (clients self') = length (clients self) - 1
           \<and> (\<forall>c\<in>set (clients self). c \<noteq> k \<longrightarrow>
                 (\<exists>data. encode_utf8 (command @ CRLF) = Inr data
                         \<and> delivered w' c = delivered w c @ data))
           \<and> delivered w' k = delivered w k
           \<and> (\<forall>net2 command2 data2.
                 (\<forall>c. send_raises net2 c = None \<and> \<not> reader_ends net2 c)
                 \<and> encode_utf8 (command2 @ CRLF) = Inr data2 \<longrightarrow>
                 (\<exists>w2. send_command net2 command2 (self', w') = (None, self', w2)
                        \<and> (\<forall>c. delivered w2 c
                                 = (if c \<in> set (clients self) \<and> c \<noteq> k
                                    then delivered w' c @ data2 else delivered w' c))))"
proof -
  let ?msg = "command @ CRLF"
  let ?P = "\<lambda>c. c \<in> set (clients self) \<longrightarrow>
                (\<exists>data. client_send net c ?msg = Inr data) \<and> \<not> reader_ends net c"
  define self' where "self' = self\<lparr>clients := remove1 k (clients self)\<rparr>"
  define w' where "w' = w\<lparr>delivered := (\<lambda>c. if c \<in> set (clients self)
                            then (case client_send net c ?msg of
                                    Inr data \<Rightarrow> delivered w c @ data
                                  | Inl e \<Rightarrow> delivered w c)
                            else delivered w c),
        printed := printed w @ map (\<lambda>c. case client_send net c ?msg of
                                            Inr data \<Rightarrow> SENT command
                                          | Inl e \<Rightarrow> ERROR_failed_to_send e) (clients self)\<rparr>"
  have ne: "clients self \<noteq> []" using assms(2) by auto
  have exc: "\<forall>c\<in>set (clients self). \<forall>e. client_send net c ?msg = Inl e \<longrightarrow>
               is_Exception e \<and> \<not> reader_ends net c"
  proof (intro ballI allI impI)
    fix c e' assume c: "c \<in> set (clients self)" and l: "client_send net c ?msg = Inl e'"
    have "is_Exception e'"
    proof (cases "c = k")
      case True
      with l assms(3) have "e' = e" by simp
      with assms(4) show ?thesis by simp
    next
      case False
      with assms(5) c obtain data where "client_send net c ?msg = Inr data" by blast
      with l show ?thesis by simp
    qed
    with assms(6) c show "is_Exception e' \<and> \<not> reader_ends net c" by simp
  qed
  have "filter ?P (clients self) = filter (\<lambda>c. c \<noteq> k) (clients self)"
    by (rule filter_cong) (use assms(3,5,6) in auto)
  then have flt: "filter ?P (clients self) = remove1 k (clients self)"
    by (simp add: remove1_filter [OF assms(1)])
  have "send_command net command (self, w)
          = send_to_each net command ?msg (clients self) (self, w)"
    by (rule send_command_nonempty [OF ne])
  also have "\<dots> = (None, self\<lparr>clients := filter ?P (clients self)\<rparr>, w')"
    unfolding w'_def by (rule send_to_each_result [OF assms(1) assms(1) subset_refl exc])
  also have "\<dots> = (None, self', w')"
    by (simp only: flt self'_def)
  finally have run: "send_command net command (self, w) = (None, self', w')" .
  have s1: "set (clients self') = set (clients self) - {k}"
    using assms(1) by (simp add: self'_def)
  have s2: "length (clients self') = length (clients self) - 1"
    using assms(2) by (simp add: self'_def length_remove1)
  have s3: "\<forall>c\<in>set (clients self). c \<noteq> k \<longrightarrow>
                 (\<exists>data. encode_utf8 ?msg = Inr data \<and> delivered w' c = delivered w c @ data)"
  proof (intro ballI impI)
    fix c assume c: "c \<in> set (clients self)" "c \<noteq> k"
    with assms(5) obtain data where d: "client_send net c ?msg = Inr data" by blast
    then have "encode_utf8 ?msg = Inr data" by (simp add: client_send_Inr_D)
    moreover have "delivered w' c = delivered w c @ data" using c d by (simp add: w'_def)
    ultimately show "\<exists>data. encode_utf8 ?msg = Inr data \<and> delivered w' c = delivered w c @ data"
      by blast
  qed
  have s4: "delivered w' k = delivered w k" using assms(2,3) by (simp add: w'_def)
  have d': "distinct (clients self')" using assms(1) by (simp add: self'_def)
  have s5: "\<forall>net2 command2 data2.
                 (\<forall>c. send_raises net2 c = None \<and> \<not> reader_ends net2 c)
                 \<and> encode_utf8 (command2 @ CRLF) = Inr data2 \<longrightarrow>
                 (\<exists>w2. send_command net2 command2 (self', w') = (None, self', w2)
                        \<and> (\<forall>c. delivered w2 c
                                 = (if c \<in> set (clients self) \<and> c \<noteq> k
                                    then delivered w' c @ data2 else delivered w' c)))"
  proof (intro allI impI)
    fix net2 :: network and command2 :: pystr and data2 :: "byte list"
    assume a: "(\<forall>c. send_raises net2 c = None \<and> \<not> reader_ends net2 c)
                 \<and> encode_utf8 (command2 @ CRLF) = Inr data2"
    from send_command_all_delivered [OF d', of command2 data2 net2 w'] a
    obtain w2 where "send_command net2 command2 (self', w') = (None, self', w2)"
      and "\<forall>c. delivered w2 c
                 = (if c \<in> set (clients self') then delivered w' c @ data2 else delivered w' c)"
      by blast
    then show "\<exists>w2. send_command net2 command2 (self', w') = (None, self', w2)
                        \<and> (\<forall>c. delivered w2 c
                                 = (if c \<in> set (clients self) \<and> c \<noteq> k
                                    then delivered w' c @ data2 else delivered w' c))"
      unfolding s1 by auto
  qed
  show ?thesis
    by (intro exI conjI) (rule run self'_def s1 s2 s3 s4 s5)+
qed

lemma broadcast_with_quiet_readers_example:
  "distinct (clients three_clients) \<and> 2 \<in> set (clients three_clients)
   \<and> client_send peer2_fails 2 (KEYCUT_ON @ CRLF) = Inl OSError \<and> is_Exception OSError
   \<and> client_send peer2_fails 1 (KEYCUT_ON @ CRLF)
       = Inr [75, 69, 89, 67, 85, 84, 32, 77, 69, 58, 49, 58, 49, 13, 10]
   \<and> client_send peer2_fails 3 (KEYCUT_ON @ CRLF)
       = Inr [75, 69, 89, 67, 85, 84, 32, 77, 69, 58, 49, 58, 49, 13, 10]
   \<and> (\<exists>self' w'.
         send_command peer2_fails KEYCUT_ON (three_clients, quiet_world) = (None, self', w')
         \<and> clients self' = [1, 3]
         \<and> delivered w' 2 = [])"
proof -
  have h1: "distinct (clients three_clients)" by (simp add: three_clients_def)
  have h2: "2 \<in> set (clients three_clients)" by (simp add: three_clients_def)
  have enc: "encode_utf8 (KEYCUT_ON @ CRLF)
               = Inr [75, 69, 89, 67, 85, 84, 32, 77, 69, 58, 49, 58, 49, 13, 10]"
    by (simp add: KEYCUT_ON_def CRLF_def py_def utf8_char_def)
  have h3: "client_send peer2_fails 2 (KEYCUT_ON @ CRLF) = Inl OSError"
    by (simp add: client_send_def enc peer2_fails_def)
  have h4: "is_Exception OSError" by (simp add: is_Exception_def)
  have h5: "\<forall>c\<in>set (clients three_clients). c \<noteq> 2 \<longrightarrow>
         (\<exists>data. client_send peer2_fails c (KEYCUT_ON @ CRLF) = Inr data)"
    by (simp add: client_send_def enc peer2_fails_def three_clients_def)
  have h6: "\<forall>c\<in>set (clients three_clients). \<not> reader_ends peer2_fails c"
    by (simp add: peer2_fails_def)
  from broadcast_with_quiet_readers [OF h1 h2 h3 h4 h5 h6, of quiet_world]
  obtain self' w' where
    r: "send_command peer2_fails KEYCUT_ON (three_clients, quiet_world) = (None, self', w')"
    and c: "self' = three_clients\<lparr>clients := remove1 2 (clients three_clients)\<rparr>"
    and d: "delivered w' 2 = delivered quiet_world 2" by blast
  have "clients self' = [1, 3]" by (simp add: c three_clients_def)
  moreover have "delivered w' 2 = []" by (simp add: d quiet_world_def)
  moreover have "client_send peer2_fails 1 (KEYCUT_ON @ CRLF)
       = Inr [75, 69, 89, 67, 85, 84, 32, 77, 69, 58, 49, 58, 49, 13, 10]"
    by (simp add: client_send_def enc peer2_fails_def)
  moreover have "client_send peer2_fails 3 (KEYCUT_ON @ CRLF)
       = Inr [75, 69, 89, 67, 85, 84, 32, 77, 69, 58, 49, 58, 49, 13, 10]"
    by (simp add: client_send_def enc peer2_fails_def)
  ultimately show ?thesis using h1 h2 h3 h4 r by blast
qed

section \<open>The serialized command line\<close>

lemma utf8_char_low_byte:
  assumes "utf8_char c = Inr bs" "b \<in> set bs" "unat b < 0x80"
  shows "c = unat b"
  using assms(1)
proof (cases rule: utf8_char_Inr_cases)
  case 1
  then have "bs = [of_nat c]" using assms(1) by (simp add: utf8_char_1)
  with 1 assms(2) show ?thesis by (simp add: unat_byte)
next
  case 2
  then have bs: "bs = [of_nat (0xC0 + c div 64), of_nat (0x80 + c mod 64)]"
    using assms(1) by (simp only: utf8_char_2 sum.inject)
  have l: "0xC0 + c div 64 < 0xE0" using 2 by simp
  have u0: "unat (of_nat (0xC0 + c div 64) :: byte) = 0xC0 + c div 64"
    using l by (intro unat_byte) simp
  have u1: "unat (of_nat (0x80 + c mod 64) :: byte) = 0x80 + c mod 64"
    by (intro unat_byte) simp
  from assms(2) have "unat b = 0xC0 + c div 64 \<or> unat b = 0x80 + c mod 64"
    unfolding bs using u0 u1 by auto
  with assms(3) show ?thesis by linarith
next
  case 3
  then have bs: "bs = [of_nat (0xE0 + c div 4096), of_nat (0x80 + (c div 64) mod 64),
             of_nat (0x80 + c mod 64)]"
    using assms(1) by (simp only: utf8_char_3 sum.inject)
  have l: "0xE0 + c div 4096 < 0xF0" using 3 by simp
  have u0: "unat (of_nat (0xE0 + c div 4096) :: byte) = 0xE0 + c div 4096"
    using l by (intro unat_byte) simp
  have u1: "unat (of_nat (0x80 + (c div 64) mod 64) :: byte) = 0x80 + (c div 64) mod 64"
    by (intro unat_byte) simp
  have u2: "unat (of_nat (0x80 + c mod 64) :: byte) = 0x80 + c mod 64"
    by (intro unat_byte) simp
  from assms(2) have "unat b = 0xE0 + c div 4096 \<or> unat b = 0x80 + (c div 64) mod 64
      \<or> unat b = 0x80 + c mod 64"
    unfolding bs using u0 u1 u2 by auto
  with assms(3) show ?thesis by linarith
next
  case 4
  then have bs: "bs = [of_nat (0xF0 + c div 262144), of_nat (0x80 + (c div 4096) mod 64),
             of_nat (0x80 + (c div 64) mod 64), of_nat (0x80 + c mod 64)]"
    using assms(1) by (simp only: utf8_char_4 sum.inject)
  have l: "0xF0 + c div 262144 < 0xF8" using 4 by simp
  have u0: "unat (of_nat (0xF0 + c div 262144) :: byte) = 0xF0 + c div 262144"
    using l by (intro unat_byte) simp
  have u1: "unat (of_nat (0x80 + (c div 4096) mod 64) :: byte) = 0x80 + (c div 4096) mod 64"
    by (intro unat_byte) simp
  have u2: "unat (of_nat (0x80 + (c div 64) mod 64) :: byte) = 0x80 + (c div 64) mod 64"
    by (intro unat_byte) simp
  have u3: "unat (of_nat (0x80 + c mod 64) :: byte) = 0x80 + c mod 64"
    by (intro unat_byte) simp
  from assms(2) have "unat b = 0xF0 + c div 262144 \<or> unat b = 0x80 + (c div 4096) mod 64
      \<or> unat b = 0x80 + (c div 64) mod 64 \<or> unat b = 0x80 + c mod 64"
    unfolding bs using u0 u1 u2 u3 by auto
  with assms(3) show ?thesis by linarith
qed

lemma encode_utf8_low_byte:
  "encode_utf8 s = Inr bs \<Longrightarrow> b \<in> set bs \<Longrightarrow> unat b < 0x80 \<Longrightarrow> unat b \<in> set s"
proof (induction s arbitrary: bs)
  case Nil
  then show ?case by simp
next
  case (Cons c cs)
  then obtain b1 b2 where e: "utf8_char c = Inr b1" "encode_utf8 cs = Inr b2" "bs = b1 @ b2"
    by (auto split: sum.splits)
  with Cons.prems(2) consider "b \<in> set b1" | "b \<in> set b2" by auto
  then show ?case
  proof cases
    case 1
    from utf8_char_low_byte [OF e(1) 1 Cons.prems(3)] show ?thesis by simp
  next
    case 2
    from Cons.IH [OF e(2) 2 Cons.prems(3)] show ?thesis by simp
  qed
qed

lemma encode_utf8_append_D:
  "encode_utf8 (a @ b) = Inr z \<Longrightarrow>
   \<exists>x y. encode_utf8 a = Inr x \<and> encode_utf8 b = Inr y \<and> z = x @ y"
proof (induction a arbitrary: z)
  case Nil
  then show ?case by simp
next
  case (Cons c cs)
  then obtain b1 b2 where e: "utf8_char c = Inr b1" "encode_utf8 (cs @ b) = Inr b2" "z = b1 @ b2"
    by (auto split: sum.splits)
  from Cons.IH [OF e(2)] obtain x y where
    "encode_utf8 cs = Inr x" "encode_utf8 b = Inr y" "b2 = x @ y" by blast
  with e show ?case by simp
qed

lemma encode_utf8_CRLF: "encode_utf8 CRLF = Inr [0x0D, 0x0A]"
  by (simp add: CRLF_def utf8_char_def)

text \<open>
  Claim C6 as stated (every text command) fails: the command \<open>A\<close>, carriage return,
  \<open>B\<close> (a line of input may hold a carriage return, and the custom-command choice of
  the menu passes the line on as typed) is sent as it is, so the peer receives a carriage
  return before the final \<open>\r\n\<close>.
\<close>

theorem embedded_carriage_return_counterexample:
  "delivered (snd (snd (send_command all_accept [0x41, 0x0D, 0x42] (one_client, quiet_world)))) 1
     = [0x41, 0x0D, 0x42, 0x0D, 0x0A]
   \<and> (0x0D :: byte) \<in> set (take 3 [0x41, 0x0D, 0x42, 0x0D, 0x0A])"
  by (simp add: send_command_def one_client_def quiet_world_def all_accept_def CRLF_def
        client_send_def reader_thread_def utf8_char_def)

text \<open>
  Claim C6, amended: for every text command that itself contains no \<open>\r\<close> and no
  \<open>\n\<close>, the bytes handed to a peer's socket are the UTF-8 encoding of the command
  followed by \<open>\r\n\<close>, and that encoding contains no \<open>\r\<close> and no \<open>\n\<close>; in a broadcast
  in which no write is interrupted and no client whose write fails has been removed by its
  reader thread, these are the bytes added to the peer's stream.
  (A command is not checked: line terminators inside it are sent as they are.)
\<close>

theorem serialized_command_ends_in_crlf:
  assumes "0x0D \<notin> set command" "0x0A \<notin> set command"
    and "client_send net client (command @ CRLF) = Inr data"
  shows "\<exists>body. encode_utf8 command = Inr body
           \<and> data = body @ [0x0D, 0x0A]
           \<and> 0x0D \<notin> set body \<and> 0x0A \<notin> set body
           \<and> (distinct (clients self) \<and> client \<in> set (clients self)
                \<and> (\<forall>c\<in>set (clients self). \<forall>e.
                       client_send net c (command @ CRLF) = Inl e \<longrightarrow>
                         is_Exception e \<and> \<not> reader_ends net c)
               \<longrightarrow> (\<exists>self' w'. send_command net command (self, w) = (None, self', w')
                       \<and> delivered w' client = delivered w client @ body @ [0x0D, 0x0A]))"
proof -
  from assms(3) have enc: "encode_utf8 (command @ CRLF) = Inr data"
    by (simp add: client_send_Inr_D)
  from encode_utf8_append_D [OF enc] obtain body y where
    b: "encode_utf8 command = Inr body" "encode_utf8 CRLF = Inr y" "data = body @ y" by blast
  then have d: "data = body @ [0x0D, 0x0A]" by (simp add: encode_utf8_CRLF)
  have cr: "0x0D \<notin> set body"
  proof
    assume "0x0D \<in> set body"
    from encode_utf8_low_byte [OF b(1) this] have "unat (0x0D :: byte) \<in> set command" by simp
    with assms(1) show False by simp
  qed
  have lf: "0x0A \<notin> set body"
  proof
    assume "0x0A \<in> set body"
    from encode_utf8_low_byte [OF b(1) this] have "unat (0x0A :: byte) \<in> set command" by simp
    with assms(2) show False by simp
  qed
  have bc: "distinct (clients self) \<and> client \<in> set (clients self)
                \<and> (\<forall>c\<in>set (clients self). \<forall>e.
                       client_send net c (command @ CRLF) = Inl e \<longrightarrow>
                         is_Exception e \<and> \<not> reader_ends net c)
               \<longrightarrow> (\<exists>self' w'. send_command net command (self, w) = (None, self', w')
                       \<and> delivered w' client = delivered w client @ body @ [0x0D, 0x0A])"
  proof
    assume h: "distinct (clients self) \<and> client \<in> set (clients self)
                \<and> (\<forall>c\<in>set (clients self). \<forall>e.
                       client_send net c (command @ CRLF) = Inl e \<longrightarrow>
                         is_Exception e \<and> \<not> reader_ends net c)"
    then have ne: "clients self \<noteq> []" by auto
    from h have dist: "distinct (clients self)"
      and exc: "\<forall>c\<in>set (clients self). \<forall>e.
                       client_send net c (command @ CRLF) = Inl e \<longrightarrow>
                         is_Exception e \<and> \<not> reader_ends net c"
      and mem: "client \<in> set (clients self)" by simp_all
    show "\<exists>self' w'. send_command net command (self, w) = (None, self', w')
                       \<and> delivered w' client = delivered w client @ body @ [0x0D, 0x0A]"
      unfolding send_command_nonempty [OF ne]
        send_to_each_result [OF dist dist subset_refl exc]
      using mem assms(3) d by simp
  qed
  show ?thesis
    by (intro exI conjI) (rule b(1) d cr lf bc)+
qed

theorem serialized_command_ends_in_crlf_witness:
  "0x0D \<notin> set KEYCUT_OFF \<and> 0x0A \<notin> set KEYCUT_OFF
   \<and> client_send all_accept 1 (KEYCUT_OFF @ CRLF)
       = Inr [75, 69, 89, 67, 85, 84, 32, 77, 69, 58, 49, 58, 49, 58, 79, 70, 70, 13, 10]
   \<and> distinct (clients one_client) \<and> 1 \<in> set (clients one_client)
   \<and> (\<exists>self' w'. send_command all_accept KEYCUT_OFF (one_client, quiet_world) = (None, self', w')
         \<and> delivered w' 1
             = [75, 69, 89, 67, 85, 84, 32, 77, 69, 58, 49, 58, 49, 58, 79, 70, 70, 13, 10])"
proof -
  have h1: "0x0D \<notin> set KEYCUT_OFF" and h2: "0x0A \<notin> set KEYCUT_OFF"
    by (simp_all add: KEYCUT_OFF_def py_def)
  have h3: "client_send all_accept 1 (KEYCUT_OFF @ CRLF)
       = Inr [75, 69, 89, 67, 85, 84, 32, 77, 69, 58, 49, 58, 49, 58, 79, 70, 70, 13, 10]"
    by (simp add: client_send_def all_accept_def KEYCUT_OFF_def CRLF_def py_def utf8_char_def)
  have h4: "distinct (clients one_client)" "1 \<in> set (clients one_client)"
    by (simp_all add: one_client_def)
  have h5: "\<forall>c\<in>set (clients one_client). \<forall>e.
               client_send all_accept c (KEYCUT_OFF @ CRLF) = Inl e \<longrightarrow>
                 is_Exception e \<and> \<not> reader_ends all_accept c"
    using h3 by (simp add: one_client_def)
  from serialized_command_ends_in_crlf [OF h1 h2 h3, of one_client quiet_world]
  obtain body where
    b: "[75, 69, 89, 67, 85, 84, 32, 77, 69, 58, 49, 58, 49, 58, 79, 70, 70, 13, 10]
          = body @ [0x0D, 0x0A]"
    and r: "distinct (clients one_client) \<and> 1 \<in> set (clients one_client)
                \<and> (\<forall>c\<in>set (clients one_client). \<forall>e.
                       client_send all_accept c (KEYCUT_OFF @ CRLF) = Inl e \<longrightarrow>
                         is_Exception e \<and> \<not> reader_ends all_accept c)
               \<longrightarrow> (\<exists>self' w'. send_command all_accept KEYCUT_OFF (one_client, quiet_world)
                                  = (None, self', w')
                       \<and> delivered w' 1 = delivered quiet_world 1 @ body @ [0x0D, 0x0A])"
    by blast
  from r h4 h5 obtain self' w' where
    "send_command all_accept KEYCUT_OFF (one_client, quiet_world) = (None, self', w')"
    "delivered w' 1 = delivered quiet_world 1 @ body @ [0x0D, 0x0A]" by blast
  then have "\<exists>self' w'. send_command all_accept KEYCUT_OFF (one_client, quiet_world) = (None, self', w')
         \<and> delivered w' 1
             = [75, 69, 89, 67, 85, 84, 32, 77, 69, 58, 49, 58, 49, 58, 79, 70, 70, 13, 10]"
    using b by (simp add: quiet_world_def)
  with h1 h2 h3 h4 show ?thesis by blast
qed

section \<open>Quitting and the keyer toggle test\<close>






text \<open>
  Claim C8, at the input where the code departs from it: the test is interrupted in its
  first pass after \<open>send_command\<close> has sent the on command and before \<open>keyer_on\<close> is set.
  The handler finds \<open>keyer_on\<close> false and sends nothing, so the on command is the last
  (and only) command the client receives and the keyer is left on.
\<close>

theorem toggle_test_interrupt_before_flag_update:
  "fst (run_keyer_toggle_test 0 AfterSend always_accept (one_client, quiet_world)) = None
   \<and> printed (snd (snd (run_keyer_toggle_test 0 AfterSend always_accept (one_client, quiet_world))))
       = [SENT KEYCUT_ON]
   \<and> delivered (snd (snd (run_keyer_toggle_test 0 AfterSend always_accept (one_client, quiet_world)))) 1
       = [75, 69, 89, 67, 85, 84, 32, 77, 69, 58, 49, 58, 49, 13, 10]"
  by (simp add: run_keyer_toggle_test_def toggle_pass_def send_command_def one_client_def
        quiet_world_def always_accept_def all_accept_def client_send_def reader_thread_def
        KEYCUT_ON_def CRLF_def py_def utf8_char_def)

text \<open>
  The same test interrupted in the sleep of its first pass, after the assignment: the
  handler sends the off command, which is the last one the client receives.
\<close>

lemma toggle_test_interrupt_in_sleep:
  "fst (run_keyer_toggle_test 0 InSleep always_accept (one_client, quiet_world)) = None
   \<and> printed (snd (snd (run_keyer_toggle_test 0 InSleep always_accept (one_client, quiet_world))))
       = [SENT KEYCUT_ON, SENT KEYCUT_OFF]"
  by (simp add: run_keyer_toggle_test_def toggle_pass_def send_command_def one_client_def
        quiet_world_def always_accept_def all_accept_def client_send_def reader_thread_def
        KEYCUT_ON_def KEYCUT_OFF_def CRLF_def py_def utf8_char_def)

section \<open>The toggle test when the flag is up to date at the interrupt\<close>

lemma send_command_all_sent:
  assumes "distinct (clients self)" "clients self \<noteq> []"
    and "encode_utf8 (command @ CRLF) = Inr data" "\<forall>c. send_raises net c = None \<and> \<not> reader_ends net c"
  shows "\<exists>w'. send_command net command (self, w) = (None, self, w')
            \<and> printed w' = printed w @ map (\<lambda>c. SENT command) (clients self)"
proof -
  have cs: "client_send net c (command @ CRLF) = Inr data" for c
    using assms(3,4) by (simp add: client_send_def)
  have "send_command net command (self, w)
          = send_to_each net command (command @ CRLF) (clients self) (self, w)"
    using assms(2) by (rule send_command_nonempty)
  also have "\<dots> = (None,
      self\<lparr>clients := filter (\<lambda>c. c \<in> set (clients self) \<longrightarrow>
                                   (\<exists>data. client_send net c (command @ CRLF) = Inr data)
                                   \<and> \<not> reader_ends net c)
                          (clients self)\<rparr>,
      w\<lparr>delivered := (\<lambda>c. if c \<in> set (clients self)
                            then (case client_send net c (command @ CRLF) of
                                    Inr data \<Rightarrow> delivered w c @ data
                                  | Inl e \<Rightarrow> delivered w c)
                            else delivered w c),
        printed := printed w @ map (\<lambda>c. case client_send net c (command @ CRLF) of
                                            Inr data \<Rightarrow> SENT command
                                          | Inl e \<Rightarrow> ERROR_failed_to_send e) (clients self)\<rparr>)"
    by (rule send_to_each_result [OF assms(1) assms(1) subset_refl]) (simp add: cs)
  finally show ?thesis by (simp add: cs assms(4))
qed

lemma keycut_encodable:
  "encode_utf8 (KEYCUT_ON @ CRLF)
     = Inr [75, 69, 89, 67, 85, 84, 32, 77, 69, 58, 49, 58, 49, 13, 10]"
  "encode_utf8 (KEYCUT_OFF @ CRLF)
     = Inr [75, 69, 89, 67, 85, 84, 32, 77, 69, 58, 49, 58, 49, 58, 79, 70, 70, 13, 10]"
  by (simp_all add: KEYCUT_ON_def KEYCUT_OFF_def CRLF_def py_def utf8_char_def)

lemma toggle_pass_agrees:
  assumes "distinct (clients self)" "clients self \<noteq> []" "\<forall>c. send_raises net c = None \<and> \<not> reader_ends net c"
    and "cancel \<noteq> Some AfterSend"
    and "printed w = base @ ls" "log_agrees keyer_on ls"
  shows "\<exists>keyer_on' w' ls'.
           toggle_pass cancel net keyer_on (self, w)
             = (if cancel = None then None else Some KeyboardInterrupt, keyer_on', self, w')
           \<and> printed w' = base @ ls' \<and> log_agrees keyer_on' ls'"
proof (cases "cancel = Some BeforeSend")
  case True
  then show ?thesis using assms(5,6) by (auto simp: toggle_pass_def)
next
  case False
  show ?thesis
  proof (cases keyer_on)
    case True
    from send_command_all_sent [OF assms(1,2) keycut_encodable(2) assms(3), of w]
    obtain w' where s: "send_command net KEYCUT_OFF (self, w) = (None, self, w')"
      and p: "printed w' = printed w @ map (\<lambda>c. SENT KEYCUT_OFF) (clients self)" by blast
    have "printed w' = base @ (ls @ map (\<lambda>c. SENT KEYCUT_OFF) (clients self))"
      by (simp add: p assms(5))
    moreover have "log_agrees False (ls @ map (\<lambda>c. SENT KEYCUT_OFF) (clients self))"
      using assms(2) by (simp add: log_agrees_def last_map)
    moreover have "toggle_pass cancel net keyer_on (self, w)
             = (if cancel = None then None else Some KeyboardInterrupt, False, self, w')"
      using True False assms(4) s
      by (cases cancel) (auto simp: toggle_pass_def intro: cancel_point.exhaust)
    ultimately show ?thesis by blast
  next
    case nk: False
    from send_command_all_sent [OF assms(1,2) keycut_encodable(1) assms(3), of w]
    obtain w' where s: "send_command net KEYCUT_ON (self, w) = (None, self, w')"
      and p: "printed w' = printed w @ map (\<lambda>c. SENT KEYCUT_ON) (clients self)" by blast
    have "printed w' = base @ (ls @ map (\<lambda>c. SENT KEYCUT_ON) (clients self))"
      by (simp add: p assms(5))
    moreover have "log_agrees True (ls @ map (\<lambda>c. SENT KEYCUT_ON) (clients self))"
      using assms(2) by (simp add: log_agrees_def last_map)
    moreover have "toggle_pass cancel net keyer_on (self, w)
             = (if cancel = None then None else Some KeyboardInterrupt, True, self, w')"
      using nk False assms(4) s
      by (cases cancel) (auto simp: toggle_pass_def intro: cancel_point.exhaust)
    ultimately show ?thesis by blast
  qed
qed

lemma toggle_loop_agrees:
  assumes "distinct (clients self)" "clients self \<noteq> []" "\<forall>j c. send_raises (nets j) c = None \<and> \<not> reader_ends (nets j) c"
    and "at \<noteq> AfterSend"
    and "printed w = base @ ls" "log_agrees keyer_on ls"
  shows "\<exists>keyer_on' w' ls'.
           toggle_loop n at nets j keyer_on (self, w)
             = (Some KeyboardInterrupt, Suc (j + n), keyer_on', self, w')
           \<and> printed w' = base @ ls' \<and> log_agrees keyer_on' ls'"
  using assms(5,6)
proof (induction n arbitrary: j keyer_on w ls)
  case 0
  have a: "\<forall>c. send_raises (nets j) c = None \<and> \<not> reader_ends (nets j) c" using assms(3) by simp
  have b: "Some at \<noteq> Some AfterSend" using assms(4) by simp
  from toggle_pass_agrees [OF assms(1,2) a b 0(1) 0(2)]
  show ?case by auto
next
  case (Suc n)
  have a: "\<forall>c. send_raises (nets j) c = None \<and> \<not> reader_ends (nets j) c" using assms(3) by simp
  have b: "None \<noteq> Some AfterSend" by simp
  from toggle_pass_agrees [OF assms(1,2) a b Suc.prems(1) Suc.prems(2)]
  obtain k1 w1 ls1 where
    p: "toggle_pass None (nets j) keyer_on (self, w) = (None, k1, self, w1)"
    and q: "printed w1 = base @ ls1" "log_agrees k1 ls1" by auto
  from Suc.IH [OF q, of "Suc j"] obtain k2 w2 ls2 where
    "toggle_loop n at nets (Suc j) k1 (self, w1)
       = (Some KeyboardInterrupt, Suc (Suc j + n), k2, self, w2)"
    "printed w2 = base @ ls2" "log_agrees k2 ls2" by blast
  then show ?case using p by auto
qed

text \<open>
  The path the handler was written for: with clients connected, every write taken and no
  reader thread ending, a test interrupted anywhere but between the sending of a command
  and the assignment to \<open>keyer_on\<close> ends without an exception, and the last line it
  printed, if it printed any, reports the off command.
\<close>

lemma toggle_test_ends_with_keyer_off:
  assumes "distinct (clients self)" "clients self \<noteq> []" "\<forall>j c. send_raises (nets j) c = None \<and> \<not> reader_ends (nets j) c"
    and "at \<noteq> AfterSend"
  shows "\<exists>w' ls. run_keyer_toggle_test n at nets (self, w) = (None, self, w')
           \<and> printed w' = printed w @ ls
           \<and> (ls = [] \<or> last ls = SENT KEYCUT_OFF)"
proof -
  have "printed w = printed w @ []" "log_agrees False []" by (simp_all add: log_agrees_def)
  from toggle_loop_agrees [OF assms this, of n 0] obtain k1 w1 ls1 where
    l: "toggle_loop n at nets 0 False (self, w) = (Some KeyboardInterrupt, Suc n, k1, self, w1)"
    and q: "printed w1 = printed w @ ls1" "log_agrees k1 ls1" by auto
  show ?thesis
  proof (cases k1)
    case True
    have a: "\<forall>c. send_raises (nets (Suc n)) c = None \<and> \<not> reader_ends (nets (Suc n)) c" using assms(3) by simp
    from send_command_all_sent [OF assms(1,2) keycut_encodable(2) a, of w1]
    obtain w2 where s: "send_command (nets (Suc n)) KEYCUT_OFF (self, w1) = (None, self, w2)"
      and p: "printed w2 = printed w1 @ map (\<lambda>c. SENT KEYCUT_OFF) (clients self)" by blast
    have "run_keyer_toggle_test n at nets (self, w) = (None, self, w2)"
      by (simp add: run_keyer_toggle_test_def l True s)
    moreover have "printed w2 = printed w @ (ls1 @ map (\<lambda>c. SENT KEYCUT_OFF) (clients self))"
      by (simp add: p q(1))
    moreover have "last (ls1 @ map (\<lambda>c. SENT KEYCUT_OFF) (clients self)) = SENT KEYCUT_OFF"
      using assms(2) by (simp add: last_map)
    ultimately show ?thesis by blast
  next
    case False
    have "run_keyer_toggle_test n at nets (self, w) = (None, self, w1)"
      by (simp add: run_keyer_toggle_test_def l False)
    moreover have "ls1 = [] \<or> last ls1 = SENT KEYCUT_OFF"
      using q(2) False by (simp add: log_agrees_def)
    ultimately show ?thesis using q(1) by blast
  qed
qed

end
